theory Spec2Isabelle
  imports Main
begin

section \<open>JavaScript objects\<close>

text \<open>
  A plain JavaScript object is an association list of its own enumerable properties, in
  the order \<^verbatim>\<open>for (key in object)\<close> visits them. The keys of one object are pairwise
  distinct; a loop \<^verbatim>\<open>for (k in o) { ... o[k] ... }\<close> walks the entries of the list.
  Inherited properties (of \<^verbatim>\<open>Object.prototype\<close>) are not part of the list.
\<close>

type_synonym 'a obj = "(string \<times> 'a) list"

definition keys :: "'a obj \<Rightarrow> string list" where
  "keys ob = map fst ob"

definition has_key :: "string \<Rightarrow> 'a obj \<Rightarrow> bool" where
  \<comment> \<open>\<^verbatim>\<open>key in object\<close>\<close>
  "has_key k ob = (map_of ob k \<noteq> None)"

fun obj_set :: "'a obj \<Rightarrow> string \<Rightarrow> 'a \<Rightarrow> 'a obj" where
  \<comment> \<open>\<^verbatim>\<open>object[key] = value\<close>: an existing property keeps its place, a new one comes last\<close>
  "obj_set [] k v = [(k, v)]"
| "obj_set ((k', v') # ob) k v =
     (if k' = k then (k, v) # ob else (k', v') # obj_set ob k v)"

fun obj_delete :: "'a obj \<Rightarrow> string \<Rightarrow> 'a obj" where
  \<comment> \<open>\<^verbatim>\<open>delete object[key]\<close>\<close>
  "obj_delete [] k = []"
| "obj_delete ((k', v') # ob) k =
     (if k' = k then obj_delete ob k else (k', v') # obj_delete ob k)"


section \<open>Driver registry and dispatch loop\<close>

text \<open>
  A driver is an object whose \<^verbatim>\<open>input\<close> and \<^verbatim>\<open>output\<close> members are read by \<^verbatim>\<open>run\<close>.
  A member can be absent (\<^verbatim>\<open>!("input" in driver)\<close>), present without being a function,
  or a function. The functions act on the outside world \<open>'w\<close>; \<open>'v\<close> is the type of the
  values exchanged with the application. Driver functions are taken to return normally
  and not to call \<^verbatim>\<open>use\<close> themselves.
\<close>

datatype 'f member = Missing | NotCallable | Callable 'f

record ('w, 'v) driver =
  inputFn :: "('w \<Rightarrow> 'v \<times> 'w) member"
  outputFn :: "('v \<Rightarrow> 'w \<Rightarrow> 'w) member"

text \<open>The messages of \<^verbatim>\<open>error(message)\<close>, one constructor per call site of \<^verbatim>\<open>run\<close>.\<close>

datatype diagnostic =
    InvalidRoot
  | DriverWithoutInput string
  | UnknownDriver string
  | DriverWithoutOutput string

text \<open>What a cycle does that can be observed from outside, in order.\<close>

datatype 'v call =
    Reported diagnostic
  | InputCalled string
  | RootCalled "'v obj"
  | OutputCalled string 'v

datatype completion = Returned | Thrown

text \<open>
  The global variable \<^verbatim>\<open>drivers\<close> (\<^verbatim>\<open>undefined\<close> until \<^verbatim>\<open>use\<close> is called), the outside
  world, and the log of calls.
\<close>

record ('w, 'v) globals =
  drivers :: "('w, 'v) driver obj option"
  world :: 'w
  calls :: "'v call list"

definition error :: "diagnostic \<Rightarrow> ('w, 'v) globals \<Rightarrow> ('w, 'v) globals" where
  \<comment> \<open>\<^verbatim>\<open>console.error\<close>: reports and returns\<close>
  "error message g = g\<lparr>calls := calls g @ [Reported message]\<rparr>"


text \<open>
  The first loop of \<^verbatim>\<open>run\<close>. A driver without \<^verbatim>\<open>input\<close> is reported, and the call
  \<^verbatim>\<open>drivers[driver].input()\<close> that follows throws a TypeError.
\<close>

fun run_inputs ::
  "('w, 'v) driver obj \<Rightarrow> 'v obj \<Rightarrow> ('w, 'v) globals \<Rightarrow> completion \<times> 'v obj \<times> ('w, 'v) globals"
where
  "run_inputs [] inp g = (Returned, inp, g)"
| "run_inputs ((name, d) # rest) inp g =
     (let g1 = (if inputFn d = Missing then error (DriverWithoutInput name) g else g) in
      case inputFn d of
        Callable f \<Rightarrow>
          (let (v, w) = f (world g1) in
           run_inputs rest (obj_set inp name v)
             (g1\<lparr>world := w, calls := calls g1 @ [InputCalled name]\<rparr>))
      | _ \<Rightarrow> (Thrown, inp, g1))"

text \<open>
  The second loop of \<^verbatim>\<open>run\<close>. An unknown driver is reported, and the test
  \<^verbatim>\<open>"output" in drivers[_driver]\<close> that follows throws a TypeError on \<^verbatim>\<open>undefined\<close>.
  A driver without \<^verbatim>\<open>output\<close> is reported, and the call
  \<^verbatim>\<open>drivers[_driver].output(...)\<close> that follows throws a TypeError. Nothing catches
  either, so the loop ends there.
\<close>

fun run_outputs ::
  "('w, 'v) driver obj option \<Rightarrow> 'v obj \<Rightarrow> ('w, 'v) globals \<Rightarrow> completion \<times> ('w, 'v) globals"
where
  "run_outputs ds [] g = (Returned, g)"
| "run_outputs None ((name, v) # rest) g = (Thrown, g)"
| "run_outputs (Some ds) ((name, v) # rest) g =
     (case map_of ds name of
        None \<Rightarrow> (Thrown, error (UnknownDriver name) g)
      | Some d \<Rightarrow>
          (case outputFn d of
             Missing \<Rightarrow> (Thrown, error (DriverWithoutOutput name) g)
           | NotCallable \<Rightarrow> (Thrown, g)
           | Callable f \<Rightarrow>
               run_outputs (Some ds) rest
                 (g\<lparr>world := f v (world g), calls := calls g @ [OutputCalled name v]\<rparr>)))"

text \<open>
  \<^verbatim>\<open>run(root)\<close>. The application is a pure function from the input record to the output
  record; \<open>None\<close> is a \<^verbatim>\<open>root\<close> that is not a function, which is reported before the
  inputs are gathered and throws a TypeError when it is called.
\<close>

definition run ::
  "('v obj \<Rightarrow> 'v obj) option \<Rightarrow> ('w, 'v) globals \<Rightarrow> completion \<times> ('w, 'v) globals"
where
  "run root g =
     (let g0 = (if root = None then error InvalidRoot g else g);
          (c, inp, g1) = run_inputs (case drivers g0 of None \<Rightarrow> [] | Some ds \<Rightarrow> ds) [] g0
      in case c of
           Thrown \<Rightarrow> (Thrown, g1)
         | Returned \<Rightarrow>
             (case root of
                None \<Rightarrow> (Thrown, g1)
              | Some application \<Rightarrow>
                  run_outputs (drivers g1) (application inp)
                    (g1\<lparr>calls := calls g1 @ [RootCalled inp]\<rparr>)))"

text \<open>
  The cycle in the words of its contract: \<open>collect\<close> calls \<^verbatim>\<open>input()\<close> on every driver in
  turn and keys the results by driver name; \<open>distribute\<close> hands every entry of the output
  record to the \<^verbatim>\<open>output\<close> of the driver of that name.
\<close>

fun collect :: "('w, 'v) driver obj \<Rightarrow> 'w \<Rightarrow> 'v obj \<times> 'w" where
  "collect [] w = ([], w)"
| "collect ((name, d) # rest) w =
     (case inputFn d of
        Callable f \<Rightarrow> (let (v, w1) = f w; (r, w2) = collect rest w1 in ((name, v) # r, w2))
      | _ \<Rightarrow> collect rest w)"

fun distribute :: "('w, 'v) driver obj \<Rightarrow> 'v obj \<Rightarrow> 'w \<Rightarrow> 'w" where
  "distribute ds [] w = w"
| "distribute ds ((name, v) # rest) w =
     (case map_of ds name of
        Some d \<Rightarrow> (case outputFn d of Callable f \<Rightarrow> distribute ds rest (f v w) | _ \<Rightarrow> distribute ds rest w)
      | None \<Rightarrow> distribute ds rest w)"

definition callable :: "'f member \<Rightarrow> bool" where
  "callable m = (case m of Callable f \<Rightarrow> True | _ \<Rightarrow> False)"

definition applicable :: "('w, 'v) driver obj \<Rightarrow> string \<Rightarrow> bool" where
  \<comment> \<open>an output entry the loop can apply: its driver is registered and has a callable \<^verbatim>\<open>output\<close>\<close>
  "applicable ds name =
     (case map_of ds name of Some d \<Rightarrow> callable (outputFn d) | None \<Rightarrow> False)"

definition offending :: "('w, 'v) driver obj \<Rightarrow> string \<Rightarrow> bool" where
  \<comment> \<open>an output entry naming an unregistered driver, or a driver that lacks \<^verbatim>\<open>output\<close>\<close>
  "offending ds name =
     (case map_of ds name of
        Some d \<Rightarrow> outputFn d = Missing
      | None \<Rightarrow> True)"

definition violation :: "('w, 'v) driver obj \<Rightarrow> string \<Rightarrow> diagnostic" where
  "violation ds name =
     (case map_of ds name of Some d \<Rightarrow> DriverWithoutOutput name | None \<Rightarrow> UnknownDriver name)"


section \<open>Description nodes\<close>

text \<open>
  The values an application puts into a description. Every object the application builds
  carries the reference it was allocated at, so that two objects with the same content
  built at different times are different values; descriptions are immutable, so one
  reference never stands for two contents, and \<^verbatim>\<open>a === b\<close> on objects is equality of the
  tagged values. Numbers are compared by value, and \<^verbatim>\<open>NaN\<close> is not equal to itself.
  A function is known by its reference only.
\<close>

type_synonym ref = nat

datatype prim = Undefined | Null | Bool bool | Num int | NaN | Str string | Func ref

text \<open>
  \<^verbatim>\<open>NodeNew(name, data)\<close>. The attribute values are primitives, group objects (the value of
  \<^verbatim>\<open>style\<close>, \<^verbatim>\<open>dataset\<close>, \<^verbatim>\<open>ariaset\<close>) and arrays of child nodes.
\<close>

datatype val =
    Prim prim
  | Object ref "prim obj"
  | Array ref "nodeNew list"
and nodeNew = NodeNew (ident: ref) (name: string) (data: "val obj")

definition strict_eq_prim :: "prim \<Rightarrow> prim \<Rightarrow> bool" where
  "strict_eq_prim a b = (a = b \<and> a \<noteq> NaN)"

definition strict_eq :: "val \<Rightarrow> val \<Rightarrow> bool" where
  \<comment> \<open>\<^verbatim>\<open>a === b\<close>\<close>
  "strict_eq a b = (a = b \<and> a \<noteq> Prim NaN)"

fun truthy :: "val \<Rightarrow> bool" where
  "truthy (Prim Undefined) = False"
| "truthy (Prim Null) = False"
| "truthy (Prim (Bool b)) = b"
| "truthy (Prim (Num n)) = (n \<noteq> 0)"
| "truthy (Prim NaN) = False"
| "truthy (Prim (Str s)) = (s \<noteq> [])"
| "truthy (Prim (Func f)) = True"
| "truthy (Object r kvs) = True"
| "truthy (Array r ns) = True"

definition obj_get :: "val obj \<Rightarrow> string \<Rightarrow> val" where
  \<comment> \<open>\<^verbatim>\<open>object[key]\<close>, \<^verbatim>\<open>undefined\<close> for a key the object does not have\<close>
  "obj_get ob k = (case map_of ob k of None \<Rightarrow> Prim Undefined | Some v \<Rightarrow> v)"

definition sub_get :: "prim obj \<Rightarrow> string \<Rightarrow> prim" where
  "sub_get ob k = (case map_of ob k of None \<Rightarrow> Undefined | Some v \<Rightarrow> v)"

fun is_event :: "string \<Rightarrow> bool" where
  \<comment> \<open>\<^verbatim>\<open>key.charCodeAt(0) === 64\<close>\<close>
  "is_event [] = False"
| "is_event (c # cs) = (c = CHR ''@'')"


section \<open>The document\<close>

text \<open>
  The document is the engine's environment. A DOM node is a handle; every call the engine
  makes on the document is recorded, in order, in \<open>effects\<close>. The state holds what the
  engine reads back: the allocation counter of \<^verbatim>\<open>document.createElement\<close> and
  \<^verbatim>\<open>document.createTextNode\<close>, \<^verbatim>\<open>parentNode\<close>, the \<^verbatim>\<open>MoonEvent\<close> slot of every node
  (\<open>None\<close> is the \<^verbatim>\<open>null\<close> of \<^verbatim>\<open>Node.prototype.MoonEvent\<close>), and the globals
  \<^verbatim>\<open>removeDataPropertyCache\<close> and \<^verbatim>\<open>viewEvent\<close>. \<open>nextArray\<close> numbers the arrays the engine
  allocates for the \<^verbatim>\<open>children\<close> of its records. The calls of the document are taken not
  to throw, and an assignment to a property to change nothing but that property.
\<close>

type_synonym handle = nat

datatype source =
    Given val
  | ReadFrom handle

datatype effect =
    CreateElement string handle
  | CreateTextNode val handle
  | SetAttribute handle string prim
  | RemoveAttribute handle string
  | SetDataset handle string prim
  | DeleteDataset handle string
  | SetStyle handle string prim
  | Focus handle
  | Blur handle
  | SetProperty handle string source
  | AddEventListener handle string
  | RemoveEventListener handle string
  | AppendChild handle handle
  | RemoveChild handle handle
  | ReplaceChild handle handle handle

datatype event = Event (eventType: string)

record dom =
  nextHandle :: handle
  nextArray :: ref
  parentNode :: "handle \<Rightarrow> handle option"
  MoonEvent :: "handle \<Rightarrow> val obj option"
  removeDataPropertyCache :: "handle obj"
  viewEvent :: "event option"
  effects :: "effect list"

text \<open>
  What a call of the engine can end with instead of returning: a TypeError of the
  language (a property read or a call on \<^verbatim>\<open>null\<close> or \<^verbatim>\<open>undefined\<close>), or \<open>Malformed\<close> for a
  description whose group is not an object or whose \<^verbatim>\<open>children\<close> is not an array, which
  the engine assumes away and this embedding does not follow.
\<close>

datatype exn = TypeError | Malformed

text \<open>
  \<^verbatim>\<open>NodeOld(node, element, children)\<close>. The field \<^verbatim>\<open>children\<close> holds an array: \<open>childrenRef\<close>
  is the array object, \<open>children\<close> its elements. A record is owned by its parent record, so
  the in-place updates of the source are returned as the updated record.
\<close>

datatype nodeOld =
  NodeOld (node: nodeNew) (element: handle) (childrenRef: ref) (children: "nodeOld list")

definition emit :: "effect \<Rightarrow> dom \<Rightarrow> dom" where
  "emit e s = s\<lparr>effects := effects s @ [e]\<rparr>"

definition createElement :: "string \<Rightarrow> dom \<Rightarrow> handle \<times> dom" where
  "createElement tag s =
     (let h = nextHandle s in
      (h, emit (CreateElement tag h)
            (s\<lparr>nextHandle := Suc h, parentNode := (parentNode s)(h := None),
               MoonEvent := (MoonEvent s)(h := None)\<rparr>)))"

definition createTextNode :: "val \<Rightarrow> dom \<Rightarrow> handle \<times> dom" where
  "createTextNode content s =
     (let h = nextHandle s in
      (h, emit (CreateTextNode content h)
            (s\<lparr>nextHandle := Suc h, parentNode := (parentNode s)(h := None),
               MoonEvent := (MoonEvent s)(h := None)\<rparr>)))"

definition appendChild :: "handle \<Rightarrow> handle \<Rightarrow> dom \<Rightarrow> dom" where
  "appendChild parent child s =
     emit (AppendChild parent child) (s\<lparr>parentNode := (parentNode s)(child := Some parent)\<rparr>)"

definition removeChild :: "handle \<Rightarrow> handle \<Rightarrow> dom \<Rightarrow> dom" where
  "removeChild parent child s =
     emit (RemoveChild parent child) (s\<lparr>parentNode := (parentNode s)(child := None)\<rparr>)"

definition replaceChild :: "handle \<Rightarrow> handle \<Rightarrow> handle \<Rightarrow> dom \<Rightarrow> dom" where
  "replaceChild parent new old s =
     emit (ReplaceChild parent new old)
       (s\<lparr>parentNode := (parentNode s)(old := None, new := Some parent)\<rparr>)"

definition newArray :: "dom \<Rightarrow> ref \<times> dom" where
  \<comment> \<open>\<^verbatim>\<open>[]\<close>\<close>
  "newArray s = (nextArray s, s\<lparr>nextArray := Suc (nextArray s)\<rparr>)"

text \<open>
  \<^verbatim>\<open>removeDataProperty(element, name, key)\<close>: the element's property is assigned the value
  read from the blank element cached for the tag, which is created on the first use.
\<close>

definition removeDataProperty :: "handle \<Rightarrow> string \<Rightarrow> string \<Rightarrow> dom \<Rightarrow> dom" where
  "removeDataProperty el nm key s =
     (case map_of (removeDataPropertyCache s) nm of
        Some blank \<Rightarrow> emit (SetProperty el key (ReadFrom blank)) s
      | None \<Rightarrow>
          (let (blank, s1) = createElement nm s in
           emit (SetProperty el key (ReadFrom blank))
             (s1\<lparr>removeDataPropertyCache := obj_set (removeDataPropertyCache s1) nm blank\<rparr>)))"



section \<open>Creating a view\<close>

fun group :: "val \<Rightarrow> exn + prim obj" where
  \<comment> \<open>the entries \<^verbatim>\<open>for (setKey in value)\<close> walks\<close>
  "group (Object r kvs) = Inr kvs"
| "group v = Inl Malformed"

fun group_old :: "val \<Rightarrow> exn + prim obj option" where
  \<comment> \<open>an old group: \<^verbatim>\<open>undefined\<close> (\<open>None\<close>) or an object\<close>
  "group_old (Prim Undefined) = Inr None"
| "group_old (Object r kvs) = Inr (Some kvs)"
| "group_old v = Inl Malformed"

definition bind_event :: "handle \<Rightarrow> string \<Rightarrow> val \<Rightarrow> dom \<Rightarrow> dom" where
  \<comment> \<open>the dispatcher of the element, created when the slot is \<^verbatim>\<open>null\<close>, gets \<^verbatim>\<open>[key] = value\<close>\<close>
  "bind_event el key v s =
     (let ev = (case MoonEvent s el of None \<Rightarrow> [] | Some e \<Rightarrow> e) in
      s\<lparr>MoonEvent := (MoonEvent s)(el := Some (obj_set ev key v))\<rparr>)"

text \<open>The body of the loop over \<^verbatim>\<open>nodeData\<close> in \<^verbatim>\<open>viewCreate\<close>, for every key but \<^verbatim>\<open>children\<close>.\<close>

definition create_attribute :: "handle \<Rightarrow> string \<Rightarrow> val \<Rightarrow> dom \<Rightarrow> exn + dom" where
  "create_attribute el key v s =
     (if is_event key then
        Inr (emit (AddEventListener el (tl key)) (bind_event el key v s))
      else if key = ''ariaset'' then
        (case group v of
           Inl e \<Rightarrow> Inl e
         | Inr kvs \<Rightarrow> Inr (fold (\<lambda>(setKey, x). emit (SetAttribute el (''aria-'' @ setKey) x)) kvs s))
      else if key = ''dataset'' then
        (case group v of
           Inl e \<Rightarrow> Inl e
         | Inr kvs \<Rightarrow> Inr (fold (\<lambda>(setKey, x). emit (SetDataset el setKey x)) kvs s))
      else if key = ''style'' then
        (case group v of
           Inl e \<Rightarrow> Inl e
         | Inr kvs \<Rightarrow> Inr (fold (\<lambda>(setKey, x). emit (SetStyle el setKey x)) kvs s))
      else if key = ''focus'' then
        Inr (if truthy v then emit (Focus el) s else s)
      else if key = ''class'' then
        Inr (emit (SetProperty el ''className'' (Given v)) s)
      else if key = ''for'' then
        Inr (emit (SetProperty el ''htmlFor'' (Given v)) s)
      else
        Inr (emit (SetProperty el key (Given v)) s))"

text \<open>
  \<^verbatim>\<open>viewCreate(node)\<close>, the loop over \<^verbatim>\<open>nodeData\<close> and the loop over the children. The loops
  carry the array \<^verbatim>\<open>children\<close> and the document.
\<close>

fun viewCreate :: "nodeNew \<Rightarrow> dom \<Rightarrow> exn + nodeOld \<times> dom"
  and create_data :: "handle \<Rightarrow> val obj \<Rightarrow> nodeOld list \<Rightarrow> dom \<Rightarrow> exn + nodeOld list \<times> dom"
  and create_children :: "handle \<Rightarrow> nodeNew list \<Rightarrow> nodeOld list \<Rightarrow> dom \<Rightarrow> exn + nodeOld list \<times> dom"
where
  "viewCreate (NodeNew i nodeName nodeData) s =
     (let (arr, s0) = newArray s in
      if nodeName = ''text'' then
        (let (el, s1) = createTextNode (obj_get nodeData ''data'') s0 in
         Inr (NodeOld (NodeNew i nodeName nodeData) el arr [], s1))
      else
        (let (el, s1) = createElement nodeName s0 in
         case create_data el nodeData [] s1 of
           Inl e \<Rightarrow> Inl e
         | Inr (cs, s2) \<Rightarrow> Inr (NodeOld (NodeNew i nodeName nodeData) el arr cs, s2)))"
| "create_data el [] cs s = Inr (cs, s)"
| "create_data el ((key, v) # rest) cs s =
     (if key = ''children'' then
        (case v of
           Array r ns \<Rightarrow>
             (case create_children el ns cs s of
                Inl e \<Rightarrow> Inl e
              | Inr (cs1, s1) \<Rightarrow> create_data el rest cs1 s1)
         | _ \<Rightarrow> Inl Malformed)
      else
        (case create_attribute el key v s of
           Inl e \<Rightarrow> Inl e
         | Inr s1 \<Rightarrow> create_data el rest cs s1))"
| "create_children el [] cs s = Inr (cs, s)"
| "create_children el (child # rest) cs s =
     (case viewCreate child s of
        Inl e \<Rightarrow> Inl e
      | Inr (childOld, s1) \<Rightarrow>
          create_children el rest (cs @ [childOld]) (appendChild el (element childOld) s1))"


section \<open>Patching a view\<close>

text \<open>
  The update of a group (\<^verbatim>\<open>ariaset\<close>, \<^verbatim>\<open>dataset\<close>, \<^verbatim>\<open>style\<close>): the source writes the two loops
  out three times, with the setter and the remover of the group.
\<close>

definition patch_group ::
  "(string \<Rightarrow> prim \<Rightarrow> effect) \<Rightarrow> (string \<Rightarrow> effect) \<Rightarrow> prim obj option \<Rightarrow> prim obj \<Rightarrow> dom \<Rightarrow> dom"
where
  "patch_group setter remover valueOld valueNew s =
     (let s1 = fold (\<lambda>(setKeyNew, setValueNew) t.
                   if strict_eq_prim
                        (case valueOld of None \<Rightarrow> Undefined | Some old \<Rightarrow> sub_get old setKeyNew)
                        setValueNew
                   then t else emit (setter setKeyNew setValueNew) t) valueNew s
      in case valueOld of
           None \<Rightarrow> s1
         | Some old \<Rightarrow>
             fold (\<lambda>(setKeyOld, x) t.
                     if has_key setKeyOld valueNew then t else emit (remover setKeyOld) t) old s1)"

text \<open>The body of the first loop of \<^verbatim>\<open>viewPatch\<close>, for every key but \<^verbatim>\<open>children\<close>.\<close>

definition patch_attribute :: "handle \<Rightarrow> string \<Rightarrow> val \<Rightarrow> val \<Rightarrow> dom \<Rightarrow> exn + dom" where
  "patch_attribute el keyNew valueOld valueNew s =
     (if is_event keyNew then
        (let bound = (case MoonEvent s el of None \<Rightarrow> False | Some ev \<Rightarrow> has_key keyNew ev) in
         Inr (if bound then bind_event el keyNew valueNew s
              else emit (AddEventListener el (tl keyNew)) (bind_event el keyNew valueNew s)))
      else if keyNew = ''ariaset'' then
        (case group_old valueOld of
           Inl e \<Rightarrow> Inl e
         | Inr old \<Rightarrow>
             (case group valueNew of
                Inl e \<Rightarrow> Inl e
              | Inr new \<Rightarrow>
                  Inr (patch_group (\<lambda>k x. SetAttribute el (''aria-'' @ k) x)
                         (\<lambda>k. RemoveAttribute el (''aria-'' @ k)) old new s)))
      else if keyNew = ''dataset'' then
        (case group_old valueOld of
           Inl e \<Rightarrow> Inl e
         | Inr old \<Rightarrow>
             (case group valueNew of
                Inl e \<Rightarrow> Inl e
              | Inr new \<Rightarrow>
                  Inr (patch_group (\<lambda>k x. SetDataset el k x) (\<lambda>k. DeleteDataset el k) old new s)))
      else if keyNew = ''style'' then
        (case group_old valueOld of
           Inl e \<Rightarrow> Inl e
         | Inr old \<Rightarrow>
             (case group valueNew of
                Inl e \<Rightarrow> Inl e
              | Inr new \<Rightarrow>
                  Inr (patch_group (\<lambda>k x. SetStyle el k x) (\<lambda>k. SetStyle el k (Str [])) old new s)))
      else if keyNew = ''focus'' then
        Inr (if truthy valueNew then emit (Focus el) s else emit (Blur el) s)
      else if keyNew = ''class'' then
        Inr (emit (SetProperty el ''className'' (Given valueNew)) s)
      else if keyNew = ''for'' then
        Inr (emit (SetProperty el ''htmlFor'' (Given valueNew)) s)
      else
        Inr (emit (SetProperty el keyNew (Given valueNew)) s))"

text \<open>
  \<^verbatim>\<open>nodeOldElement.removeChild(childrenOld.pop().element)\<close>, \<open>k\<close> times. On an empty array
  \<^verbatim>\<open>pop()\<close> is \<^verbatim>\<open>undefined\<close> and the read of \<^verbatim>\<open>element\<close> throws.
\<close>

fun remove_children :: "handle \<Rightarrow> nat \<Rightarrow> nodeOld list \<Rightarrow> dom \<Rightarrow> exn + nodeOld list \<times> dom" where
  "remove_children el 0 cs s = Inr (cs, s)"
| "remove_children el (Suc k) cs s =
     (if cs = [] then Inl TypeError
      else remove_children el k (butlast cs) (removeChild el (element (last cs)) s))"

fun old_child :: "val \<Rightarrow> nat \<Rightarrow> exn + nodeNew option" where
  \<comment> \<open>\<^verbatim>\<open>valueOld[i]\<close>: \<open>None\<close> is the \<^verbatim>\<open>undefined\<close> of an index past the end\<close>
  "old_child (Prim Undefined) i = Inl TypeError"
| "old_child (Array r ns) i = Inr (if i < length ns then Some (ns ! i) else None)"
| "old_child v i = Inl Malformed"

text \<open>
  The body of the second loop of \<^verbatim>\<open>viewPatch\<close>, for a key that the new data does not have,
  \<^verbatim>\<open>children\<close> apart. The switch has the cases \<^verbatim>\<open>ariaset\<close>, \<^verbatim>\<open>dataset\<close>, \<^verbatim>\<open>focus\<close>, \<^verbatim>\<open>class\<close>,
  \<^verbatim>\<open>for\<close>, \<^verbatim>\<open>children\<close> and the default. \<^verbatim>\<open>delete\<close> on the \<^verbatim>\<open>null\<close> of an element without
  dispatcher throws.
\<close>

definition remove_attribute :: "handle \<Rightarrow> string \<Rightarrow> string \<Rightarrow> val \<Rightarrow> dom \<Rightarrow> exn + dom" where
  "remove_attribute el nodeName keyOld valueOld s =
     (if is_event keyOld then
        (case MoonEvent s el of
           None \<Rightarrow> Inl TypeError
         | Some ev \<Rightarrow>
             Inr (emit (RemoveEventListener el (tl keyOld))
                    (s\<lparr>MoonEvent := (MoonEvent s)(el := Some (obj_delete ev keyOld))\<rparr>)))
      else if keyOld = ''ariaset'' then
        (case group valueOld of
           Inl e \<Rightarrow> Inl e
         | Inr kvs \<Rightarrow> Inr (fold (\<lambda>(k, x). emit (RemoveAttribute el (''aria-'' @ k))) kvs s))
      else if keyOld = ''dataset'' then
        (case group valueOld of
           Inl e \<Rightarrow> Inl e
         | Inr kvs \<Rightarrow> Inr (fold (\<lambda>(k, x). emit (DeleteDataset el k)) kvs s))
      else if keyOld = ''focus'' then
        Inr (if truthy valueOld then emit (Blur el) s else s)
      else if keyOld = ''class'' then
        Inr (emit (SetProperty el ''className'' (Given (Prim (Str [])))) s)
      else if keyOld = ''for'' then
        Inr (emit (SetProperty el ''htmlFor'' (Given (Prim (Str [])))) s)
      else
        Inr (removeDataProperty el nodeName keyOld s))"

text \<open>
  The second loop of \<^verbatim>\<open>viewPatch\<close>, over the old data: every key that the new data does
  not have is taken back; for \<^verbatim>\<open>children\<close>, every child record is removed.
\<close>

fun remove_data ::
  "handle \<Rightarrow> string \<Rightarrow> val obj \<Rightarrow> val obj \<Rightarrow> nodeOld list \<Rightarrow> dom \<Rightarrow> exn + nodeOld list \<times> dom"
where
  "remove_data el nodeName nodeNewData [] cs s = Inr (cs, s)"
| "remove_data el nodeName nodeNewData ((keyOld, valueOld) # rest) cs s =
     (if has_key keyOld nodeNewData then remove_data el nodeName nodeNewData rest cs s
      else if keyOld = ''children'' then
        (case remove_children el (length cs) cs s of
           Inl e \<Rightarrow> Inl e
         | Inr (cs1, s1) \<Rightarrow> remove_data el nodeName nodeNewData rest cs1 s1)
      else
        (case remove_attribute el nodeName keyOld valueOld s of
           Inl e \<Rightarrow> Inl e
         | Inr s1 \<Rightarrow> remove_data el nodeName nodeNewData rest cs s1))"

lemma size_list_take [termination_simp]: "size_list f (take n xs) \<le> size_list f xs"
  by (induction xs arbitrary: n) (auto simp: take_Cons split: nat.splits)

lemma size_list_drop [termination_simp]: "size_list f (drop n xs) \<le> size_list f xs"
proof (induction xs arbitrary: n)
  case Nil
  then show ?case by simp
next
  case (Cons a xs)
  show ?case
  proof (cases n)
    case 0
    then show ?thesis by simp
  next
    case (Suc m)
    have "size_list f (drop m xs) \<le> size_list f xs" by (rule Cons.IH)
    then show ?thesis using Suc by simp
  qed
qed

text \<open>
  \<^verbatim>\<open>viewPatch(nodeOld, nodeNew)\<close>; \<open>patch_data\<close> is its first loop, over the new data;
  \<open>patch_children\<close> is the case \<^verbatim>\<open>children\<close> of that loop, with its three branches on the
  two lengths; \<open>patch_each\<close> is the loop all three branches start with, which patches the
  child records by position and skips a child whose old and new nodes are the same
  object.
\<close>

fun viewPatch :: "nodeOld \<Rightarrow> nodeNew \<Rightarrow> dom \<Rightarrow> exn + nodeOld \<times> dom"
  and patch_data ::
    "handle \<Rightarrow> val obj \<Rightarrow> val obj \<Rightarrow> nodeOld list \<Rightarrow> dom \<Rightarrow> exn + nodeOld list \<times> dom"
  and patch_children ::
    "handle \<Rightarrow> val \<Rightarrow> nodeNew list \<Rightarrow> nodeOld list \<Rightarrow> dom \<Rightarrow> exn + nodeOld list \<times> dom"
  and patch_each ::
    "val \<Rightarrow> nat \<Rightarrow> nodeNew list \<Rightarrow> nodeOld list \<Rightarrow> dom \<Rightarrow> exn + nodeOld list \<times> dom"
where
  "viewPatch nodeOld (NodeNew i nodeNewName nodeNewData) s =
     (let nodeOldNode = node nodeOld;
          nodeOldNodeName = name nodeOldNode;
          nodeOldElement = element nodeOld
      in
      if nodeOldNodeName \<noteq> nodeNewName then
        (case viewCreate (NodeNew i nodeNewName nodeNewData) s of
           Inl e \<Rightarrow> Inl e
         | Inr (nodeOldNew, s1) \<Rightarrow>
             (case parentNode s1 nodeOldElement of
                None \<Rightarrow> Inl TypeError
              | Some parent \<Rightarrow>
                  Inr (NodeOld (NodeNew i nodeNewName nodeNewData) (element nodeOldNew)
                         (childrenRef nodeOldNew) (children nodeOldNew),
                       replaceChild parent (element nodeOldNew) nodeOldElement s1)))
      else
        (case patch_data nodeOldElement (data nodeOldNode) nodeNewData (children nodeOld) s of
           Inl e \<Rightarrow> Inl e
         | Inr (cs1, s1) \<Rightarrow>
             (case remove_data nodeOldElement nodeOldNodeName nodeNewData (data nodeOldNode) cs1 s1 of
                Inl e \<Rightarrow> Inl e
              | Inr (cs2, s2) \<Rightarrow>
                  Inr (NodeOld (NodeNew i nodeNewName nodeNewData) nodeOldElement
                         (childrenRef nodeOld) cs2, s2))))"
| "patch_data el nodeOldNodeData [] cs s = Inr (cs, s)"
| "patch_data el nodeOldNodeData ((keyNew, valueNew) # rest) cs s =
     (let valueOld = obj_get nodeOldNodeData keyNew in
      if strict_eq valueOld valueNew then patch_data el nodeOldNodeData rest cs s
      else if keyNew = ''children'' then
        (case valueNew of
           Array r ns \<Rightarrow>
             (case patch_children el valueOld ns cs s of
                Inl e \<Rightarrow> Inl e
              | Inr (cs1, s1) \<Rightarrow> patch_data el nodeOldNodeData rest cs1 s1)
         | _ \<Rightarrow> Inl Malformed)
      else
        (case patch_attribute el keyNew valueOld valueNew s of
           Inl e \<Rightarrow> Inl e
         | Inr s1 \<Rightarrow> patch_data el nodeOldNodeData rest cs s1))"
| "patch_children el valueOld valueNew childrenOld s =
     (let childrenOldLength = length childrenOld;
          valueNewLength = length valueNew
      in
      if childrenOldLength = valueNewLength then
        patch_each valueOld 0 valueNew childrenOld s
      else if childrenOldLength > valueNewLength then
        (case patch_each valueOld 0 valueNew childrenOld s of
           Inl e \<Rightarrow> Inl e
         | Inr (cs1, s1) \<Rightarrow> remove_children el (childrenOldLength - valueNewLength) cs1 s1)
      else
        (case patch_each valueOld 0 (take childrenOldLength valueNew) childrenOld s of
           Inl e \<Rightarrow> Inl e
         | Inr (cs1, s1) \<Rightarrow> create_children el (drop childrenOldLength valueNew) cs1 s1))"
| "patch_each valueOld i [] cs s = Inr (cs, s)"
| "patch_each valueOld i (childNew # rest) cs s =
     (case old_child valueOld i of
        Inl e \<Rightarrow> Inl e
      | Inr old \<Rightarrow>
          if old = Some childNew then patch_each valueOld (Suc i) rest cs s
          else if i < length cs then
            (case viewPatch (cs ! i) childNew s of
               Inl e \<Rightarrow> Inl e
             | Inr (c, s1) \<Rightarrow> patch_each valueOld (Suc i) rest (cs[i := c]) s1)
          else Inl TypeError)"


section \<open>Notions used in the statements\<close>

text \<open>The document before anything was created, with the globals as the module sets them.\<close>

definition initial :: dom where
  "initial =
     \<lparr>nextHandle = 0, nextArray = 0, parentNode = (\<lambda>h. None), MoonEvent = (\<lambda>h. None),
      removeDataPropertyCache = [], viewEvent = None, effects = []\<rparr>"

text \<open>
  A description is well formed when the keys of every data object are distinct, as the
  keys of an object are, and a text node has no \<^verbatim>\<open>children\<close>.
\<close>

fun well_formed :: "nodeNew \<Rightarrow> bool"
  and well_formed_data :: "val obj \<Rightarrow> bool"
  and well_formed_nodes :: "nodeNew list \<Rightarrow> bool"
where
  "well_formed (NodeNew i nodeName nodeData) =
     (distinct (keys nodeData) \<and> (nodeName = ''text'' \<longrightarrow> \<not> has_key ''children'' nodeData)
      \<and> well_formed_data nodeData)"
| "well_formed_data [] = True"
| "well_formed_data ((key, v) # rest) =
     ((case v of Array r ns \<Rightarrow> well_formed_nodes ns | _ \<Rightarrow> True) \<and> well_formed_data rest)"
| "well_formed_nodes [] = True"
| "well_formed_nodes (child # rest) = (well_formed child \<and> well_formed_nodes rest)"

text \<open>The number of children a description implies, and the records that have as many.\<close>

definition children_count :: "val obj \<Rightarrow> nat" where
  "children_count kvs =
     (case map_of kvs ''children'' of Some (Array a ns) \<Rightarrow> length ns | _ \<Rightarrow> 0)"

definition implied_children :: "nodeNew \<Rightarrow> nat" where
  "implied_children d = (if name d = ''text'' then 0 else children_count (data d))"

fun consistent :: "nodeOld \<Rightarrow> bool" where
  "consistent (NodeOld d el a cs) =
     (length cs = implied_children d \<and> (\<forall>c \<in> set cs. consistent c))"

text \<open>The DOM nodes of a record and of the records below it.\<close>

fun elems :: "nodeOld \<Rightarrow> handle set" where
  "elems (NodeOld d el a cs) = insert el (\<Union>c \<in> set cs. elems c)"

abbreviation elems_of :: "nodeOld list \<Rightarrow> handle set" where
  "elems_of cs \<equiv> (\<Union>c \<in> set cs. elems c)"

text \<open>
  The node a call is made for: the node created, the node whose attribute, property or
  listener is written, the parent a child is appended to or removed from, and the node
  that is replaced.
\<close>

fun subject :: "effect \<Rightarrow> handle" where
  "subject (CreateElement tag h) = h"
| "subject (CreateTextNode content h) = h"
| "subject (SetAttribute h k x) = h"
| "subject (RemoveAttribute h k) = h"
| "subject (SetDataset h k x) = h"
| "subject (DeleteDataset h k) = h"
| "subject (SetStyle h k x) = h"
| "subject (Focus h) = h"
| "subject (Blur h) = h"
| "subject (SetProperty h k x) = h"
| "subject (AddEventListener h t) = h"
| "subject (RemoveEventListener h t) = h"
| "subject (AppendChild parent child) = parent"
| "subject (RemoveChild parent child) = parent"
| "subject (ReplaceChild parent new old) = old"

text \<open>
  \<open>frame hs s s'\<close>: from \<open>s\<close> to \<open>s'\<close> the engine has only added calls, each for a node of
  \<open>hs\<close> or for a node created since \<open>s\<close>; the slots of every other node of \<open>s\<close> are as they
  were; and the cache has kept its entries.
\<close>

definition frame :: "handle set \<Rightarrow> dom \<Rightarrow> dom \<Rightarrow> bool" where
  "frame hs s s' =
     (nextHandle s \<le> nextHandle s' \<and> nextArray s \<le> nextArray s'
      \<and> (\<exists>es. effects s' = effects s @ es
                \<and> (\<forall>e \<in> set es. subject e \<in> hs \<or> nextHandle s \<le> subject e))
      \<and> (\<forall>h. h \<notin> hs \<and> h < nextHandle s \<longrightarrow>
                MoonEvent s' h = MoonEvent s h \<and> parentNode s' h = parentNode s h)
      \<and> (\<forall>tag b. map_of (removeDataPropertyCache s) tag = Some b \<longrightarrow>
                map_of (removeDataPropertyCache s') tag = Some b)
      \<and> (distinct (keys (removeDataPropertyCache s)) \<longrightarrow>
                distinct (keys (removeDataPropertyCache s')))
      \<and> viewEvent s' = viewEvent s)"

text \<open>
  The keys the switch of the removal loop sends to its default: neither an event key nor
  one of \<^verbatim>\<open>ariaset\<close>, \<^verbatim>\<open>dataset\<close>, \<^verbatim>\<open>focus\<close>, \<^verbatim>\<open>class\<close>, \<^verbatim>\<open>for\<close>, \<^verbatim>\<open>children\<close>.
\<close>

definition generic :: "string \<Rightarrow> bool" where
  "generic key =
     (\<not> is_event key \<and> key \<noteq> ''ariaset'' \<and> key \<noteq> ''dataset'' \<and> key \<noteq> ''focus''
      \<and> key \<noteq> ''class'' \<and> key \<noteq> ''for'' \<and> key \<noteq> ''children'')"

fun is_create :: "effect \<Rightarrow> bool" where
  "is_create (CreateElement tag h) = True"
| "is_create (CreateTextNode content h) = True"
| "is_create e = False"

fun is_set_style :: "effect \<Rightarrow> bool" where
  "is_set_style (SetStyle h k x) = True"
| "is_set_style e = False"

text \<open>
  The application that the dispatcher of an element holds for an event key: \<^verbatim>\<open>undefined\<close>
  (\<open>None\<close>) when the element has no dispatcher or the dispatcher has not the key.
\<close>

definition bound_handler :: "dom \<Rightarrow> handle \<Rightarrow> string \<Rightarrow> val option" where
  "bound_handler s el key = (case MoonEvent s el of None \<Rightarrow> None | Some ev \<Rightarrow> map_of ev key)"


section \<open>Properties of the dispatch loop\<close>

lemma obj_set_fresh: "k \<notin> set (keys ob) \<Longrightarrow> obj_set ob k v = ob @ [(k, v)]"
  by (induction ob) (auto simp: keys_def)

lemma run_inputs_collect:
  "distinct (keys ds) \<Longrightarrow> set (keys inp) \<inter> set (keys ds) = {} \<Longrightarrow>
   \<forall>d \<in> snd ` set ds. callable (inputFn d) \<Longrightarrow>
   run_inputs ds inp g =
     (Returned, inp @ fst (collect ds (world g)),
      g\<lparr>world := snd (collect ds (world g)), calls := calls g @ map InputCalled (keys ds)\<rparr>)"
proof (induction ds arbitrary: inp g)
  case Nil
  then show ?case by (simp add: keys_def)
next
  case (Cons p ds)
  obtain k d where p: "p = (k, d)" by (cases p)
  from Cons.prems(3) p obtain f where f: "inputFn d = Callable f"
    by (auto simp: callable_def split: member.splits)
  obtain v w where fw: "f (world g) = (v, w)" by (cases "f (world g)")
  have fresh: "k \<notin> set (keys inp)" using Cons.prems(2) p by (auto simp: keys_def)
  have d1: "distinct (keys ds)" using Cons.prems(1) by (simp add: keys_def)
  have d2: "set (keys (inp @ [(k, v)])) \<inter> set (keys ds) = {}"
    using Cons.prems(1,2) p by (auto simp: keys_def)
  have d3: "\<forall>d \<in> snd ` set ds. callable (inputFn d)" using Cons.prems(3) by auto
  show ?case
    using Cons.IH[OF d1 d2 d3, of "g\<lparr>world := w, calls := calls g @ [InputCalled k]\<rparr>"]
    by (simp add: p f fw obj_set_fresh[OF fresh] keys_def split: prod.splits)
qed

lemma keys_collect:
  "\<forall>d \<in> snd ` set ds. callable (inputFn d) \<Longrightarrow> keys (fst (collect ds w)) = keys ds"
proof (induction ds arbitrary: w)
  case Nil
  then show ?case by (simp add: keys_def)
next
  case (Cons p ds)
  obtain k d where p: "p = (k, d)" by (cases p)
  from Cons.prems p obtain f where f: "inputFn d = Callable f"
    by (auto simp: callable_def split: member.splits)
  obtain v w1 where fw: "f w = (v, w1)" by (cases "f w")
  have "\<forall>d \<in> snd ` set ds. callable (inputFn d)" using Cons.prems by auto
  from Cons.IH[OF this, of w1] show ?case
    by (auto simp: p f fw keys_def split: prod.splits)
qed

lemma run_outputs_distribute:
  "\<forall>k \<in> set (keys outp). applicable ds k \<Longrightarrow>
   run_outputs (Some ds) outp g =
     (Returned, g\<lparr>world := distribute ds outp (world g),
                  calls := calls g @ map (\<lambda>(k, v). OutputCalled k v) outp\<rparr>)"
proof (induction outp arbitrary: g)
  case Nil
  then show ?case by simp
next
  case (Cons p outp)
  obtain k v where p: "p = (k, v)" by (cases p)
  from Cons.prems p obtain d f where d: "map_of ds k = Some d" "outputFn d = Callable f"
    by (auto simp: applicable_def callable_def keys_def split: option.splits member.splits)
  have "\<forall>k \<in> set (keys outp). applicable ds k" using Cons.prems by (simp add: keys_def)
  from Cons.IH[OF this] show ?case
    by (simp add: p d)
qed

lemma run_outputs_stops:
  "\<forall>k \<in> set (keys pre). applicable ds k \<Longrightarrow> offending ds k0 \<Longrightarrow>
   run_outputs (Some ds) (pre @ (k0, v) # post) g =
     (Thrown, g\<lparr>world := distribute ds pre (world g),
                calls := calls g @ map (\<lambda>(k, v). OutputCalled k v) pre @ [Reported (violation ds k0)]\<rparr>)"
proof (induction pre arbitrary: g)
  case Nil
  then show ?case
    by (auto simp: offending_def violation_def error_def split: option.splits)
next
  case (Cons p pre)
  obtain k u where p: "p = (k, u)" by (cases p)
  from Cons.prems p obtain d f where d: "map_of ds k = Some d" "outputFn d = Callable f"
    by (auto simp: applicable_def callable_def keys_def split: option.splits member.splits)
  have "\<forall>k \<in> set (keys pre). applicable ds k" using Cons.prems by (simp add: keys_def)
  from Cons.IH[OF this Cons.prems(2)] show ?case
    by (simp add: p d)
qed

text \<open>
  C5. With every registered driver exposing \<^verbatim>\<open>input\<close> and every key of the output record
  naming a registered driver with an \<^verbatim>\<open>output\<close>, \<^verbatim>\<open>run(application)\<close> returns, and what it
  did is, in this order: \<^verbatim>\<open>input()\<close> on every registered driver, the results collected
  under the drivers' names; one call of the application, with that input record; and
  \<^verbatim>\<open>output(value)\<close> on the driver of every key of the returned record, with the key's value.
\<close>

theorem run_cycle:
  assumes "drivers g = Some ds" and "distinct (keys ds)"
    and "\<forall>d \<in> snd ` set ds. callable (inputFn d)"
    and "\<forall>k \<in> set (keys (application (fst (collect ds (world g))))). applicable ds k"
  shows "run (Some application) g =
           (Returned,
            g\<lparr>world := distribute ds (application (fst (collect ds (world g))))
                         (snd (collect ds (world g))),
              calls := calls g @ map InputCalled (keys ds)
                       @ [RootCalled (fst (collect ds (world g)))]
                       @ map (\<lambda>(k, v). OutputCalled k v)
                           (application (fst (collect ds (world g))))\<rparr>)
         \<and> keys (fst (collect ds (world g))) = keys ds"
proof -
  have e: "set (keys ([] :: 'b obj)) \<inter> set (keys ds) = {}" by (simp add: keys_def)
  show ?thesis
    using assms(1) run_inputs_collect[OF assms(2) e assms(3), of g]
      run_outputs_distribute[OF assms(4)] keys_collect[OF assms(3)]
    by (simp add: run_def)
qed

theorem run_cycle_witness:
  "run (Some (\<lambda>i. [(''b'', 2)]))
     \<lparr>drivers = Some [(''a'', \<lparr>inputFn = Callable (\<lambda>w. (w, w)), outputFn = Callable (\<lambda>v w. w + v)\<rparr>),
                      (''b'', \<lparr>inputFn = Callable (\<lambda>w. (w + 1, w)), outputFn = Callable (\<lambda>v w. w + v)\<rparr>)],
      world = 5, calls = []\<rparr>
   = (Returned,
      \<lparr>drivers = Some [(''a'', \<lparr>inputFn = Callable (\<lambda>w. (w, w)), outputFn = Callable (\<lambda>v w. w + v)\<rparr>),
                      (''b'', \<lparr>inputFn = Callable (\<lambda>w. (w + 1, w)), outputFn = Callable (\<lambda>v w. w + v)\<rparr>)],
       world = 7,
       calls = [InputCalled ''a'', InputCalled ''b'', RootCalled [(''a'', 5), (''b'', 6)],
                OutputCalled ''b'' (2 :: nat)]\<rparr>)"
  using run_cycle[of
      "\<lparr>drivers = Some [(''a'', \<lparr>inputFn = Callable (\<lambda>w. (w, w)), outputFn = Callable (\<lambda>v w. w + v)\<rparr>),
                      (''b'', \<lparr>inputFn = Callable (\<lambda>w. (w + 1, w)), outputFn = Callable (\<lambda>v w. w + v)\<rparr>)],
        world = 5 :: nat, calls = []\<rparr>"
      "[(''a'', \<lparr>inputFn = Callable (\<lambda>w. (w, w)), outputFn = Callable (\<lambda>v w. w + v)\<rparr>),
        (''b'', \<lparr>inputFn = Callable (\<lambda>w. (w + 1, w)), outputFn = Callable (\<lambda>v w. w + v)\<rparr>)]"
      "\<lambda>i. [(''b'', 2 :: nat)]"]
  by (simp add: keys_def callable_def applicable_def)

text \<open>
  C1, as the code has it. When the output record names a driver that is not registered, or
  one without \<^verbatim>\<open>output\<close>, the failure is reported and the entry is not applied; the cycle
  ends there with an exception: \<^verbatim>\<open>output(value)\<close> has been called for the entries before
  the offending one, and is called for no entry after it.
\<close>

theorem run_stops_at_contract_violation:
  assumes "drivers g = Some ds" and "distinct (keys ds)"
    and "\<forall>d \<in> snd ` set ds. callable (inputFn d)"
    and "application (fst (collect ds (world g))) = pre @ (k, v) # post"
    and "\<forall>j \<in> set (keys pre). applicable ds j"
    and "offending ds k"
  shows "run (Some application) g =
           (Thrown,
            g\<lparr>world := distribute ds pre (snd (collect ds (world g))),
              calls := calls g @ map InputCalled (keys ds)
                       @ [RootCalled (fst (collect ds (world g)))]
                       @ map (\<lambda>(j, u). OutputCalled j u) pre
                       @ [Reported (violation ds k)]\<rparr>)"
proof -
  have e: "set (keys ([] :: 'b obj)) \<inter> set (keys ds) = {}" by (simp add: keys_def)
  show ?thesis
    using assms(1,4) run_inputs_collect[OF assms(2) e assms(3), of g]
      run_outputs_stops[OF assms(5,6), of v post]
    by (simp add: run_def)
qed

theorem run_stops_at_contract_violation_witness:
  "run (Some (\<lambda>i. [(''a'', 1), (''x'', 1), (''b'', 2)]))
     \<lparr>drivers = Some [(''a'', \<lparr>inputFn = Callable (\<lambda>w. (w, w)), outputFn = Callable (\<lambda>v w. w + v)\<rparr>),
                      (''b'', \<lparr>inputFn = Callable (\<lambda>w. (w, w)), outputFn = Callable (\<lambda>v w. w + v)\<rparr>)],
      world = 5, calls = []\<rparr>
   = (Thrown,
      \<lparr>drivers = Some [(''a'', \<lparr>inputFn = Callable (\<lambda>w. (w, w)), outputFn = Callable (\<lambda>v w. w + v)\<rparr>),
                      (''b'', \<lparr>inputFn = Callable (\<lambda>w. (w, w)), outputFn = Callable (\<lambda>v w. w + v)\<rparr>)],
       world = 6,
       calls = [InputCalled ''a'', InputCalled ''b'', RootCalled [(''a'', 5), (''b'', 5)],
                OutputCalled ''a'' (1 :: nat), Reported (UnknownDriver ''x'')]\<rparr>)"
  using run_stops_at_contract_violation[of
      "\<lparr>drivers = Some [(''a'', \<lparr>inputFn = Callable (\<lambda>w. (w, w)), outputFn = Callable (\<lambda>v w. w + v)\<rparr>),
                      (''b'', \<lparr>inputFn = Callable (\<lambda>w. (w, w)), outputFn = Callable (\<lambda>v w. w + v)\<rparr>)],
        world = 5 :: nat, calls = []\<rparr>"
      "[(''a'', \<lparr>inputFn = Callable (\<lambda>w. (w, w)), outputFn = Callable (\<lambda>v w. w + v)\<rparr>),
        (''b'', \<lparr>inputFn = Callable (\<lambda>w. (w, w)), outputFn = Callable (\<lambda>v w. w + v)\<rparr>)]"
      "\<lambda>i. [(''a'', 1 :: nat), (''x'', 1), (''b'', 2)]" "[(''a'', 1)]" "''x''" 1 "[(''b'', 2)]"]
  by (simp add: keys_def callable_def applicable_def offending_def violation_def)

theorem run_skips_later_outputs_counterexample:
  "applicable [(''a'', \<lparr>inputFn = Callable (\<lambda>w. (w, w)), outputFn = Callable (\<lambda>v w. w + v)\<rparr>),
               (''b'', \<lparr>inputFn = Callable (\<lambda>w. (w, w)), outputFn = Callable (\<lambda>v w. w + v)\<rparr>)] ''b''
   \<and> OutputCalled ''b'' 2 \<notin> set (calls (snd (
       run (Some (\<lambda>i. [(''x'', 1), (''b'', 2)]))
         \<lparr>drivers = Some [(''a'', \<lparr>inputFn = Callable (\<lambda>w. (w, w)), outputFn = Callable (\<lambda>v w. w + v)\<rparr>),
                          (''b'', \<lparr>inputFn = Callable (\<lambda>w. (w, w)), outputFn = Callable (\<lambda>v w. w + v)\<rparr>)],
          world = 5 :: nat, calls = []\<rparr>)))
   \<and> calls (snd (
       run (Some (\<lambda>i. [(''x'', 1), (''b'', 2)]))
         \<lparr>drivers = Some [(''a'', \<lparr>inputFn = Callable (\<lambda>w. (w, w)), outputFn = Callable (\<lambda>v w. w + v)\<rparr>),
                          (''b'', \<lparr>inputFn = Callable (\<lambda>w. (w, w)), outputFn = Callable (\<lambda>v w. w + v)\<rparr>)],
          world = 5 :: nat, calls = []\<rparr>))
     = [InputCalled ''a'', InputCalled ''b'', RootCalled [(''a'', 5), (''b'', 5)],
        Reported (UnknownDriver ''x'')]"
  by (simp add: run_def applicable_def callable_def error_def)


section \<open>Properties of the reconciliation engine\<close>

subsection \<open>The record after a patch\<close>

lemma viewPatch_node:
  "viewPatch r d s = Inr (r', s') \<Longrightarrow> node r' = d"
  by (cases d) (auto simp: Let_def split: if_splits sum.splits prod.splits option.splits)

lemma viewPatch_same_kind:
  "name (node r) = name d \<Longrightarrow> viewPatch r d s = Inr (r', s') \<Longrightarrow>
   element r' = element r \<and> childrenRef r' = childrenRef r"
  by (cases d) (auto simp: Let_def split: sum.splits prod.splits)

text \<open>
  C9. A patch with a description of the same kind leaves the record's \<^verbatim>\<open>element\<close> and the
  array held by its \<^verbatim>\<open>children\<close> in place: both are the same objects before and after.
\<close>

theorem viewPatch_same_kind_keeps_element:
  assumes "name (node r) = name d" and "viewPatch r d s = Inr (r', s')"
  shows "element r' = element r \<and> childrenRef r' = childrenRef r"
  using viewPatch_same_kind[OF assms] .

theorem viewPatch_same_kind_keeps_element_witness:
  "\<exists>r' s'.
     viewPatch (NodeOld (NodeNew 0 ''div'' [(''class'', Prim (Str ''a''))]) 3 2 [])
       (NodeNew 1 ''div'' [(''class'', Prim (Str ''b'')), (''children'', Array 5 [NodeNew 2 ''p'' []])])
       (initial\<lparr>nextHandle := 4, nextArray := 3\<rparr>) = Inr (r', s')
     \<and> element r' = 3 \<and> childrenRef r' = 2"
proof -
  obtain r' s' where e:
    "viewPatch (NodeOld (NodeNew 0 ''div'' [(''class'', Prim (Str ''a''))]) 3 2 [])
       (NodeNew 1 ''div'' [(''class'', Prim (Str ''b'')), (''children'', Array 5 [NodeNew 2 ''p'' []])])
       (initial\<lparr>nextHandle := 4, nextArray := 3\<rparr>) = Inr (r', s')"
    by (simp add: initial_def obj_get_def strict_eq_def patch_attribute_def emit_def has_key_def
        createElement_def newArray_def appendChild_def)
  from viewPatch_same_kind_keeps_element[OF _ e] e show ?thesis by simp
qed

subsection \<open>Patching twice with one description\<close>

lemma obj_get_member:
  "distinct (keys ob) \<Longrightarrow> (k, v) \<in> set ob \<Longrightarrow> obj_get ob k = v"
  by (simp add: obj_get_def keys_def)

lemma has_key_member: "(k, v) \<in> set ob \<Longrightarrow> has_key k ob"
  by (auto simp: has_key_def weak_map_of_SomeI)

lemma patch_data_same:
  "set rest \<subseteq> set nd \<Longrightarrow> distinct (keys nd) \<Longrightarrow> \<forall>v \<in> snd ` set nd. v \<noteq> Prim NaN \<Longrightarrow>
   patch_data el nd rest cs s = Inr (cs, s)"
proof (induction rest)
  case Nil
  then show ?case by simp
next
  case (Cons p rest)
  obtain k v where p: "p = (k, v)" by (cases p)
  have m: "(k, v) \<in> set nd" using Cons.prems(1) p by simp
  have g: "obj_get nd k = v" using obj_get_member[OF Cons.prems(2) m] .
  have n: "v \<noteq> Prim NaN" using Cons.prems(3) m by force
  have "set rest \<subseteq> set nd" using Cons.prems(1) by simp
  from Cons.IH[OF this Cons.prems(2,3)] show ?case
    by (simp add: p g n strict_eq_def)
qed

lemma remove_data_same:
  "set rest \<subseteq> set nd \<Longrightarrow> remove_data el nm nd rest cs s = Inr (cs, s)"
proof (induction rest)
  case Nil
  then show ?case by simp
next
  case (Cons p rest)
  obtain k v where p: "p = (k, v)" by (cases p)
  have "has_key k nd" using Cons.prems p has_key_member[of k v nd] by simp
  moreover have "set rest \<subseteq> set nd" using Cons.prems by simp
  ultimately show ?case using Cons.IH by (simp add: p)
qed

lemma viewPatch_own_description:
  assumes "node r = d" and "distinct (keys (data d))" and "\<forall>v \<in> snd ` set (data d). v \<noteq> Prim NaN"
  shows "viewPatch r d s = Inr (r, s)"
proof -
  obtain i n nd where d: "d = NodeNew i n nd" by (cases d)
  obtain d0 el a cs where r: "r = NodeOld d0 el a cs" by (cases r)
  have p1: "patch_data el nd nd cs s = Inr (cs, s)"
    using patch_data_same[of nd nd] assms(2,3) d by simp
  have p2: "remove_data el n nd nd cs s = Inr (cs, s)"
    using remove_data_same[of nd nd] by simp
  show ?thesis using assms(1) p1 p2 by (simp add: d r)
qed

text \<open>
  C2, as the code has it. After \<^verbatim>\<open>viewPatch(r, d)\<close>, a second \<^verbatim>\<open>viewPatch(r, d)\<close> with the same
  description changes nothing, neither the record nor the document, provided that no
  attribute of \<open>d\<close> has the value \<^verbatim>\<open>NaN\<close> (which \<^verbatim>\<open>!==\<close> tells apart from itself).
\<close>

theorem viewPatch_twice:
  assumes "viewPatch r d s = Inr (r1, s1)"
    and "distinct (keys (data d))"
    and "\<forall>v \<in> snd ` set (data d). v \<noteq> Prim NaN"
  shows "viewPatch r1 d s1 = Inr (r1, s1)"
  using viewPatch_own_description[OF viewPatch_node[OF assms(1)] assms(2,3)] .

theorem viewPatch_twice_witness:
  "\<exists>r1 s1.
     viewPatch (NodeOld (NodeNew 0 ''input'' []) 0 0 [])
       (NodeNew 1 ''input'' [(''value'', Prim (Str ''x'')), (''focus'', Prim (Bool True))])
       (initial\<lparr>nextHandle := 1, nextArray := 1\<rparr>) = Inr (r1, s1)
     \<and> length (effects s1) = 2
     \<and> viewPatch r1 (NodeNew 1 ''input'' [(''value'', Prim (Str ''x'')), (''focus'', Prim (Bool True))]) s1
         = Inr (r1, s1)"
proof -
  obtain r1 s1 where e:
    "viewPatch (NodeOld (NodeNew 0 ''input'' []) 0 0 [])
       (NodeNew 1 ''input'' [(''value'', Prim (Str ''x'')), (''focus'', Prim (Bool True))])
       (initial\<lparr>nextHandle := 1, nextArray := 1\<rparr>) = Inr (r1, s1)"
    and l: "length (effects s1) = 2"
    by (simp add: initial_def obj_get_def strict_eq_def patch_attribute_def emit_def has_key_def)
  have "viewPatch r1 (NodeNew 1 ''input'' [(''value'', Prim (Str ''x'')), (''focus'', Prim (Bool True))]) s1
         = Inr (r1, s1)"
    using viewPatch_twice[OF e] by (simp add: keys_def)
  with e l show ?thesis by blast
qed

theorem viewPatch_twice_NaN_counterexample:
  "viewPatch (NodeOld (NodeNew 0 ''input'' []) 0 0 [])
     (NodeNew 1 ''input'' [(''value'', Prim NaN)])
     (initial\<lparr>nextHandle := 1, nextArray := 1\<rparr>)
   = Inr (NodeOld (NodeNew 1 ''input'' [(''value'', Prim NaN)]) 0 0 [],
          initial\<lparr>nextHandle := 1, nextArray := 1,
                  effects := [SetProperty 0 ''value'' (Given (Prim NaN))]\<rparr>)
   \<and> viewPatch (NodeOld (NodeNew 1 ''input'' [(''value'', Prim NaN)]) 0 0 [])
       (NodeNew 1 ''input'' [(''value'', Prim NaN)])
       (initial\<lparr>nextHandle := 1, nextArray := 1,
                effects := [SetProperty 0 ''value'' (Given (Prim NaN))]\<rparr>)
     = Inr (NodeOld (NodeNew 1 ''input'' [(''value'', Prim NaN)]) 0 0 [],
            initial\<lparr>nextHandle := 1, nextArray := 1,
                    effects := [SetProperty 0 ''value'' (Given (Prim NaN)),
                                SetProperty 0 ''value'' (Given (Prim NaN))]\<rparr>)"
  by (simp add: initial_def obj_get_def strict_eq_def patch_attribute_def emit_def has_key_def)


subsection \<open>What a call may touch\<close>

lemma frame_refl: "frame hs s s"
  by (simp add: frame_def)

lemma frame_trans:
  assumes "frame A s s1" and "frame B s1 s2" and "B \<subseteq> A \<union> {h. nextHandle s \<le> h}"
  shows "frame A s s2"
proof -
  from assms(1) obtain es1 where es1: "effects s1 = effects s @ es1"
    "\<forall>e \<in> set es1. subject e \<in> A \<or> nextHandle s \<le> subject e"
    by (auto simp: frame_def)
  from assms(2) obtain es2 where es2: "effects s2 = effects s1 @ es2"
    "\<forall>e \<in> set es2. subject e \<in> B \<or> nextHandle s1 \<le> subject e"
    by (auto simp: frame_def)
  have le: "nextHandle s \<le> nextHandle s1" using assms(1) by (simp add: frame_def)
  have a: "effects s2 = effects s @ (es1 @ es2)" using es1 es2 by simp
  have b: "\<forall>e \<in> set (es1 @ es2). subject e \<in> A \<or> nextHandle s \<le> subject e"
  proof
    fix e assume "e \<in> set (es1 @ es2)"
    then consider "e \<in> set es1" | "e \<in> set es2" by auto
    then show "subject e \<in> A \<or> nextHandle s \<le> subject e"
    proof cases
      case 1
      then show ?thesis using es1(2) by blast
    next
      case 2
      then have "subject e \<in> B \<or> nextHandle s1 \<le> subject e" using es2(2) by blast
      then show ?thesis using assms(3) le by auto
    qed
  qed
  have c: "\<forall>h. h \<notin> A \<and> h < nextHandle s \<longrightarrow>
             MoonEvent s2 h = MoonEvent s h \<and> parentNode s2 h = parentNode s h"
  proof (intro allI impI)
    fix h assume h: "h \<notin> A \<and> h < nextHandle s"
    then have "h \<notin> B" "h < nextHandle s1" using assms(3) le by auto
    then have "MoonEvent s2 h = MoonEvent s1 h \<and> parentNode s2 h = parentNode s1 h"
      using assms(2) by (simp add: frame_def)
    moreover have "MoonEvent s1 h = MoonEvent s h \<and> parentNode s1 h = parentNode s h"
      using assms(1) h by (simp add: frame_def)
    ultimately show "MoonEvent s2 h = MoonEvent s h \<and> parentNode s2 h = parentNode s h"
      by simp
  qed
  show ?thesis
    unfolding frame_def
    using a b c assms(1,2) le by (auto simp: frame_def)
qed

lemma frame_mono: "frame A s s' \<Longrightarrow> A \<subseteq> B \<Longrightarrow> frame B s s'"
  by (rule frame_trans[OF frame_refl]) auto

lemma frame_step: "frame A s s1 \<Longrightarrow> frame A s1 s2 \<Longrightarrow> frame A s s2"
  by (rule frame_trans) auto

lemma frame_emit:
  "frame hs s t \<Longrightarrow> subject e \<in> hs \<or> nextHandle s \<le> subject e \<Longrightarrow> frame hs s (emit e t)"
  unfolding frame_def emit_def by auto

lemma frame_fold:
  "frame hs s t \<Longrightarrow> (\<And>x u. x \<in> set xs \<Longrightarrow> frame hs s u \<Longrightarrow> frame hs s (F x u)) \<Longrightarrow>
   frame hs s (fold F xs t)"
  by (induction xs arbitrary: t) auto

lemma frame_bind_event:
  "frame hs s t \<Longrightarrow> el \<in> hs \<Longrightarrow> frame hs s (bind_event el k v t)"
  by (rule frame_step[of hs s t]) (auto simp: frame_def bind_event_def Let_def)

lemma createElement_frame:
  "frame hs s t \<Longrightarrow> createElement tag t = (h, s') \<Longrightarrow>
   frame hs s s' \<and> h = nextHandle t \<and> nextHandle s' = Suc h \<and> nextArray s' = nextArray t"
  by (rule conjI, rule frame_step[of hs s t])
     (auto simp: createElement_def frame_def emit_def Let_def)

lemma createTextNode_frame:
  "frame hs s t \<Longrightarrow> createTextNode v t = (h, s') \<Longrightarrow>
   frame hs s s' \<and> h = nextHandle t \<and> nextHandle s' = Suc h \<and> nextArray s' = nextArray t"
  by (rule conjI, rule frame_step[of hs s t])
     (auto simp: createTextNode_def frame_def emit_def Let_def)

lemma newArray_frame:
  "frame hs s t \<Longrightarrow> newArray t = (a, s') \<Longrightarrow>
   frame hs s s' \<and> a = nextArray t \<and> nextHandle s' = nextHandle t"
  by (rule conjI, rule frame_step[of hs s t]) (auto simp: newArray_def frame_def)

lemma appendChild_frame:
  "frame hs s t \<Longrightarrow> p \<in> hs \<or> nextHandle s \<le> p \<Longrightarrow> c \<in> hs \<or> nextHandle s \<le> c \<Longrightarrow>
   frame hs s (appendChild p c t)"
  by (rule frame_trans[of hs s t "insert p (insert c hs)"])
     (auto simp: appendChild_def frame_def emit_def)

lemma removeChild_frame:
  "frame hs s t \<Longrightarrow> p \<in> hs \<Longrightarrow> c \<in> hs \<Longrightarrow> frame hs s (removeChild p c t)"
  by (rule frame_step[of hs s t]) (auto simp: removeChild_def frame_def emit_def)

lemma replaceChild_frame:
  "frame hs s t \<Longrightarrow> old \<in> hs \<Longrightarrow> new \<in> hs \<or> nextHandle s \<le> new \<Longrightarrow>
   frame hs s (replaceChild p new old t)"
  by (rule frame_trans[of hs s t "insert new hs"])
     (auto simp: replaceChild_def frame_def emit_def)

lemma map_of_obj_set:
  "map_of (obj_set ob k v) k' = (if k' = k then Some v else map_of ob k')"
  by (induction ob) auto

lemma keys_obj_set_fresh: "k \<notin> set (keys ob) \<Longrightarrow> keys (obj_set ob k v) = keys ob @ [k]"
  by (simp add: obj_set_fresh) (simp add: keys_def)

lemma removeDataProperty_frame:
  assumes "frame hs s t" and "el \<in> hs"
  shows "frame hs s (removeDataProperty el nm key t)"
proof (rule frame_step[OF assms(1)], cases "map_of (removeDataPropertyCache t) nm")
  case None
  then have "nm \<notin> set (keys (removeDataPropertyCache t))"
    by (simp add: keys_def map_of_eq_None_iff)
  then show "frame hs t (removeDataProperty el nm key t)" using None assms(2)
    by (auto simp: removeDataProperty_def createElement_def frame_def emit_def Let_def
        map_of_obj_set keys_obj_set_fresh)
next
  case (Some b)
  then show "frame hs t (removeDataProperty el nm key t)" using assms(2)
    by (simp add: removeDataProperty_def frame_emit frame_refl)
qed


lemma create_attribute_frame:
  "frame hs s t \<Longrightarrow> el \<in> hs \<Longrightarrow> create_attribute el k v t = Inr s' \<Longrightarrow> frame hs s s'"
  unfolding create_attribute_def
  by (auto split: if_splits sum.splits intro!: frame_fold frame_emit frame_bind_event)

lemma patch_group_frame:
  "frame hs s t \<Longrightarrow> (\<And>k x. subject (setter k x) \<in> hs) \<Longrightarrow> (\<And>k. subject (remover k) \<in> hs) \<Longrightarrow>
   frame hs s (patch_group setter remover old new t)"
  unfolding patch_group_def Let_def
  by (auto split: option.splits intro!: frame_fold frame_emit)

lemma patch_attribute_frame:
  "frame hs s t \<Longrightarrow> el \<in> hs \<Longrightarrow> patch_attribute el k vo vn t = Inr s' \<Longrightarrow> frame hs s s'"
  unfolding patch_attribute_def Let_def
  by (auto split: if_splits sum.splits intro!: patch_group_frame frame_emit frame_bind_event)

lemma element_in_elems: "element c \<in> elems c"
  by (cases c) simp

lemma elems_of_butlast: "elems_of (butlast cs) \<subseteq> elems_of cs"
  by (auto dest: in_set_butlastD)

lemma remove_children_frame:
  "frame hs s t \<Longrightarrow> el \<in> hs \<Longrightarrow> elems_of cs \<subseteq> hs \<Longrightarrow>
   remove_children el k cs t = Inr (cs', s') \<Longrightarrow>
   frame hs s s' \<and> k \<le> length cs \<and> cs' = take (length cs - k) cs \<and> nextHandle s' = nextHandle t"
proof (induction k arbitrary: cs t)
  case 0
  then show ?case by simp
next
  case (Suc k)
  have ne: "cs \<noteq> []" using Suc.prems(4) by (auto split: if_splits)
  then have l: "element (last cs) \<in> hs"
    using Suc.prems(3) element_in_elems[of "last cs"] last_in_set[OF ne] by blast
  have f: "frame hs s (removeChild el (element (last cs)) t)"
    using removeChild_frame[OF Suc.prems(1,2) l] .
  have sub: "elems_of (butlast cs) \<subseteq> hs" using elems_of_butlast[of cs] Suc.prems(3) by blast
  have r: "remove_children el k (butlast cs) (removeChild el (element (last cs)) t) = Inr (cs', s')"
    using Suc.prems(4) ne by simp
  have pos: "0 < length cs" using ne by simp
  from Suc.IH[OF f Suc.prems(2) sub r]
  have 1: "frame hs s s'" and 2: "k \<le> length cs - 1"
    and 3: "cs' = take (length cs - 1 - k) (butlast cs)"
    and 4: "nextHandle s' = nextHandle t"
    by (auto simp: removeChild_def emit_def)
  have "take (length cs - 1 - k) (butlast cs) = take (length cs - Suc k) cs"
    by (simp add: butlast_conv_take min_def)
  moreover have "Suc k \<le> length cs" using 2 pos by arith
  ultimately show ?case using 1 3 4 by simp
qed

lemma frame_set_MoonEvent:
  "frame hs s t \<Longrightarrow> el \<in> hs \<Longrightarrow> frame hs s (t\<lparr>MoonEvent := (MoonEvent t)(el := x)\<rparr>)"
  unfolding frame_def by auto

lemma remove_attribute_frame:
  "frame hs s t \<Longrightarrow> el \<in> hs \<Longrightarrow> remove_attribute el nm k v t = Inr s' \<Longrightarrow> frame hs s s'"
  unfolding remove_attribute_def
  by (auto split: if_splits sum.splits option.splits
      intro!: frame_fold frame_emit removeDataProperty_frame frame_set_MoonEvent)

lemma remove_data_frame:
  "frame hs s t \<Longrightarrow> el \<in> hs \<Longrightarrow> elems_of cs \<subseteq> hs \<Longrightarrow>
   remove_data el nm nd old cs t = Inr (cs', s') \<Longrightarrow>
   frame hs s s' \<and> (\<exists>n. cs' = take n cs)"
proof (induction old arbitrary: cs t)
  case Nil
  then show ?case by (auto intro: exI[of _ "length cs"])
next
  case (Cons p old)
  obtain k v where p: "p = (k, v)" by (cases p)
  note IH = Cons.IH[OF _ Cons.prems(2)]
  consider (skip) "has_key k nd"
    | (children) "\<not> has_key k nd" "k = ''children''"
    | (other) "\<not> has_key k nd" "k \<noteq> ''children''" by blast
  then show ?case
  proof cases
    case skip
    then have "remove_data el nm nd old cs t = Inr (cs', s')" using Cons.prems(4) p by simp
    from IH[OF Cons.prems(1,3) this] show ?thesis .
  next
    case children
    from Cons.prems(4) children obtain cs1 s1 where
      rc: "remove_children el (length cs) cs t = Inr (cs1, s1)" and
      rd: "remove_data el nm nd old cs1 s1 = Inr (cs', s')"
      by (auto simp: p split: sum.splits)
    from remove_children_frame[OF Cons.prems(1,2,3) rc]
    have f1: "frame hs s s1" and c1: "cs1 = []" by auto
    from IH[OF f1 _ rd] c1 show ?thesis by auto
  next
    case other
    from Cons.prems(4) other obtain t1 where
      ra: "remove_attribute el nm k v t = Inr t1" and
      rd: "remove_data el nm nd old cs t1 = Inr (cs', s')"
      by (auto simp: p split: sum.splits)
    from IH[OF remove_attribute_frame[OF Cons.prems(1,2) ra] Cons.prems(3) rd] show ?thesis .
  qed
qed


lemma frame_drop_fresh:
  "frame (insert el hs) s s' \<Longrightarrow> nextHandle s \<le> el \<Longrightarrow> frame hs s s'"
  unfolding frame_def by auto

lemma frame_nextHandle: "frame hs s t \<Longrightarrow> nextHandle s \<le> nextHandle t"
  by (simp add: frame_def)

lemma nextHandle_emit [simp]: "nextHandle (emit e s) = nextHandle s"
  by (simp add: emit_def)

lemma nextHandle_fold_emit:
  "(\<And>x u. nextHandle (F x u) = nextHandle u) \<Longrightarrow> nextHandle (fold F xs s) = nextHandle s"
  by (induction xs arbitrary: s) auto

lemma nextHandle_bind_event [simp]: "nextHandle (bind_event el k v s) = nextHandle s"
  by (simp add: bind_event_def Let_def)

lemma nextHandle_appendChild [simp]: "nextHandle (appendChild p c s) = nextHandle s"
  by (simp add: appendChild_def)

lemma create_attribute_nextHandle:
  "create_attribute el k v t = Inr s' \<Longrightarrow> nextHandle s' = nextHandle t"
  unfolding create_attribute_def
  by (auto split: if_splits sum.splits intro!: nextHandle_fold_emit)

lemma viewCreate_frame:
  "frame hs s t \<Longrightarrow> viewCreate d t = Inr (r, s') \<Longrightarrow>
     frame hs s s' \<and> nextHandle t < nextHandle s' \<and> element r = nextHandle t \<and> node r = d
     \<and> childrenRef r = nextArray t
     \<and> elems_of (children r) \<subseteq> {Suc (nextHandle t) ..< nextHandle s'}"
  and create_data_frame:
  "frame hs s t \<Longrightarrow> el \<in> hs \<Longrightarrow> create_data el kvs cs t = Inr (cs', s') \<Longrightarrow>
     frame hs s s' \<and> nextHandle t \<le> nextHandle s'
     \<and> (\<exists>new. cs' = cs @ new \<and> elems_of new \<subseteq> {nextHandle t ..< nextHandle s'})"
  and create_children_frame:
  "frame hs s t \<Longrightarrow> el \<in> hs \<Longrightarrow> create_children el ns cs t = Inr (cs', s') \<Longrightarrow>
     frame hs s s' \<and> nextHandle t \<le> nextHandle s'
     \<and> (\<exists>new. cs' = cs @ new \<and> map node new = ns
               \<and> elems_of new \<subseteq> {nextHandle t ..< nextHandle s'})"
proof (induction d t and el kvs cs t and el ns cs t
    arbitrary: r s' hs s and cs' s' hs s and cs' s' hs s
    rule: viewCreate_create_data_create_children.induct)
  case (1 i nodeName nodeData t)
  obtain a t0 where na: "newArray t = (a, t0)" by (cases "newArray t")
  from newArray_frame[OF "1.prems"(1) na]
  have f0: "frame hs s t0" and a: "a = nextArray t" and h0: "nextHandle t0 = nextHandle t" by auto
  show ?case
  proof (cases "nodeName = ''text''")
    case True
    obtain el t1 where ct: "createTextNode (obj_get nodeData ''data'') t0 = (el, t1)"
      by (cases "createTextNode (obj_get nodeData ''data'') t0")
    from createTextNode_frame[OF f0 ct] "1.prems"(2) True na ct a h0 show ?thesis
      by auto
  next
    case False
    obtain el t1 where ce: "createElement nodeName t0 = (el, t1)"
      by (cases "createElement nodeName t0")
    from createElement_frame[OF f0 ce]
    have f1: "frame hs s t1" and el: "el = nextHandle t" and h1: "nextHandle t1 = Suc el"
      using h0 by auto
    from "1.prems"(2) False na ce obtain cs where
      cd: "create_data el nodeData [] t1 = Inr (cs, s')" and
      r: "r = NodeOld (NodeNew i nodeName nodeData) el a cs"
      by (auto split: sum.splits)
    have f1': "frame (insert el hs) s t1" using frame_mono[OF f1] by blast
    from "1.IH"[OF na[symmetric] refl False ce[symmetric] refl f1' _ cd]
    have f2: "frame (insert el hs) s s'" and le: "nextHandle t1 \<le> nextHandle s'"
      and sub: "elems_of cs \<subseteq> {nextHandle t1 ..< nextHandle s'}"
      by auto
    have "nextHandle s \<le> el" using frame_nextHandle[OF "1.prems"(1)] el by simp
    from frame_drop_fresh[OF f2 this] le sub h1 el a r show ?thesis by auto
  qed
next
  case (2 el cs t)
  then show ?case by auto
next
  case (3 el key v rest cs t)
  show ?case
  proof (cases "key = ''children''")
    case True
    from "3.prems"(3) True obtain a ns cs1 s1 where
      v: "v = Array a ns" and
      cc: "create_children el ns cs t = Inr (cs1, s1)" and
      cd: "create_data el rest cs1 s1 = Inr (cs', s')"
      by (auto split: val.splits sum.splits)
    from "3.IH"(1)[OF True v "3.prems"(1,2) cc] obtain new1 where
      f1: "frame hs s s1" and l1: "nextHandle t \<le> nextHandle s1" and
      n1: "cs1 = cs @ new1" "elems_of new1 \<subseteq> {nextHandle t ..< nextHandle s1}"
      by auto
    from "3.IH"(2)[OF True v cc refl f1 "3.prems"(2) cd] obtain new2 where
      f2: "frame hs s s'" and l2: "nextHandle s1 \<le> nextHandle s'" and
      n2: "cs' = cs1 @ new2" "elems_of new2 \<subseteq> {nextHandle s1 ..< nextHandle s'}"
      by auto
    have "cs' = cs @ (new1 @ new2)" using n1 n2 by simp
    moreover have "elems_of (new1 @ new2) \<subseteq> {nextHandle t ..< nextHandle s'}"
      using n1(2) n2(2) l1 l2 by fastforce
    ultimately show ?thesis using f2 l1 l2 by (intro conjI exI[of _ "new1 @ new2"]) auto
  next
    case False
    from "3.prems"(3) False obtain t1 where
      ca: "create_attribute el key v t = Inr t1" and
      cd: "create_data el rest cs t1 = Inr (cs', s')"
      by (auto split: sum.splits)
    from "3.IH"(3)[OF False ca create_attribute_frame[OF "3.prems"(1,2) ca] "3.prems"(2) cd]
      create_attribute_nextHandle[OF ca]
    show ?thesis by simp
  qed
next
  case (4 el cs t)
  then show ?case by auto
next
  case (5 el child rest cs t)
  from "5.prems"(3) obtain c t1 where
    vc: "viewCreate child t = Inr (c, t1)" and
    cc: "create_children el rest (cs @ [c]) (appendChild el (element c) t1) = Inr (cs', s')"
    by (auto split: sum.splits)
  from "5.IH"(1)[OF "5.prems"(1) vc]
  have f1: "frame hs s t1" and l1: "nextHandle t < nextHandle t1" and
    ec: "element c = nextHandle t" and nc: "node c = child" and
    sc: "elems_of (children c) \<subseteq> {Suc (nextHandle t) ..< nextHandle t1}"
    by auto
  have "nextHandle s \<le> element c" using frame_nextHandle[OF "5.prems"(1)] ec by simp
  then have f2: "frame hs s (appendChild el (element c) t1)"
    using appendChild_frame[OF f1] "5.prems"(2) by blast
  from "5.IH"(2)[OF vc refl f2 "5.prems"(2) cc] obtain new where
    f3: "frame hs s s'" and l3: "nextHandle t1 \<le> nextHandle s'" and
    n: "cs' = (cs @ [c]) @ new" "map node new = rest"
       "elems_of new \<subseteq> {nextHandle t1 ..< nextHandle s'}"
    by auto
  have ecs: "elems c \<subseteq> {nextHandle t ..< nextHandle t1}"
    using ec sc l1 by (cases c) auto
  have "elems_of (c # new) \<subseteq> {nextHandle t ..< nextHandle s'}"
    using ecs n(3) l1 l3 by fastforce
  then show ?case using f3 l1 l3 n nc
    by (intro conjI exI[of _ "c # new"]) auto
qed


lemma nextHandle_patch_group [simp]:
  "nextHandle (patch_group setter remover old new s) = nextHandle s"
proof -
  have a: "\<And>F t. nextHandle (fold (\<lambda>(k, x) u. if F k x then u else emit (setter k x) u) new t)
      = nextHandle t"
    by (rule nextHandle_fold_emit) (simp split: prod.splits)
  have b: "\<And>F xs t. nextHandle (fold (\<lambda>(k, x) u. if F k then u else emit (remover k) u) xs t)
      = nextHandle t"
    by (rule nextHandle_fold_emit) (simp split: prod.splits)
  show ?thesis unfolding patch_group_def Let_def
    by (simp add: a b split: option.splits)
qed

lemma closed_sub:
  "A \<subseteq> B \<union> {a ..< b} \<Longrightarrow> B \<subseteq> hs \<Longrightarrow> \<forall>h. n \<le> h \<longrightarrow> h \<in> hs \<Longrightarrow> n \<le> (a::nat) \<Longrightarrow> A \<subseteq> hs"
  by (meson Un_least atLeastLessThan_iff le_trans subsetI subset_trans)

lemma widen_sub:
  "A \<subseteq> B \<union> {b ..< c} \<Longrightarrow> B \<subseteq> C \<union> {a ..< b} \<Longrightarrow> a \<le> b \<Longrightarrow> b \<le> (c::nat) \<Longrightarrow>
   A \<subseteq> C \<union> {a ..< c}"
  by (rule subsetI) (fastforce simp: subset_iff)

lemma patch_attribute_nextHandle:
  "patch_attribute el k vo vn t = Inr s' \<Longrightarrow> nextHandle s' = nextHandle t"
  unfolding patch_attribute_def Let_def
  by (auto split: if_splits sum.splits)

lemma elems_of_update: "elems_of (cs[i := c]) \<subseteq> elems_of cs \<union> elems c"
  using set_update_subset_insert[of cs i c] by auto

lemma elems_of_take: "elems_of (take n cs) \<subseteq> elems_of cs"
  by (auto dest: in_set_takeD)

lemma elems_conv: "elems r = insert (element r) (elems_of (children r))"
  by (cases r) simp

lemma viewPatch_frame:
  "frame hs s t \<Longrightarrow> \<forall>h. nextHandle s \<le> h \<longrightarrow> h \<in> hs \<Longrightarrow> elems r \<subseteq> hs \<Longrightarrow>
   viewPatch r d t = Inr (r', s') \<Longrightarrow>
     frame hs s s' \<and> nextHandle t \<le> nextHandle s'
     \<and> elems r' \<subseteq> elems r \<union> {nextHandle t ..< nextHandle s'}"
  and patch_data_frame:
  "frame hs s t \<Longrightarrow> \<forall>h. nextHandle s \<le> h \<longrightarrow> h \<in> hs \<Longrightarrow> el \<in> hs \<Longrightarrow> elems_of cs \<subseteq> hs \<Longrightarrow>
   patch_data el od nd cs t = Inr (cs', s') \<Longrightarrow>
     frame hs s s' \<and> nextHandle t \<le> nextHandle s'
     \<and> elems_of cs' \<subseteq> elems_of cs \<union> {nextHandle t ..< nextHandle s'}"
  and patch_children_frame:
  "frame hs s t \<Longrightarrow> \<forall>h. nextHandle s \<le> h \<longrightarrow> h \<in> hs \<Longrightarrow> el \<in> hs \<Longrightarrow> elems_of cs \<subseteq> hs \<Longrightarrow>
   patch_children el vo ns cs t = Inr (cs', s') \<Longrightarrow>
     frame hs s s' \<and> nextHandle t \<le> nextHandle s'
     \<and> elems_of cs' \<subseteq> elems_of cs \<union> {nextHandle t ..< nextHandle s'}"
  and patch_each_frame:
  "frame hs s t \<Longrightarrow> \<forall>h. nextHandle s \<le> h \<longrightarrow> h \<in> hs \<Longrightarrow> elems_of cs \<subseteq> hs \<Longrightarrow>
   patch_each vo i ns cs t = Inr (cs', s') \<Longrightarrow>
     frame hs s s' \<and> nextHandle t \<le> nextHandle s' \<and> length cs' = length cs
     \<and> elems_of cs' \<subseteq> elems_of cs \<union> {nextHandle t ..< nextHandle s'}"
proof (induction r d t and el od nd cs t and el vo ns cs t and vo i ns cs t
    arbitrary: r' s' hs s and cs' s' hs s and cs' s' hs s and cs' s' hs s
    rule: viewPatch_patch_data_patch_children_patch_each.induct)
  case (1 r i nodeNewName nodeNewData t)
  let ?d = "NodeNew i nodeNewName nodeNewData"
  have er: "element r \<in> hs" using "1.prems"(3) element_in_elems[of r] by blast
  show ?case
  proof (cases "name (node r) = nodeNewName")
    case False
    from "1.prems"(4) False obtain c t1 p where
      vc: "viewCreate ?d t = Inr (c, t1)" and
      pn: "parentNode t1 (element r) = Some p" and
      r': "r' = NodeOld ?d (element c) (childrenRef c) (children c)" and
      s': "s' = replaceChild p (element c) (element r) t1"
      by (auto simp: Let_def split: sum.splits option.splits)
    from viewCreate_frame[OF "1.prems"(1) vc]
    have f1: "frame hs s t1" and l1: "nextHandle t < nextHandle t1" and
      ec: "element c = nextHandle t" and
      sc: "elems_of (children c) \<subseteq> {Suc (nextHandle t) ..< nextHandle t1}"
      by auto
    have "nextHandle s \<le> element c" using frame_nextHandle[OF "1.prems"(1)] ec by simp
    then have f2: "frame hs s s'" unfolding s' using replaceChild_frame[OF f1 er] by blast
    have "nextHandle s' = nextHandle t1" unfolding s' by (simp add: replaceChild_def)
    moreover have "elems r' \<subseteq> {nextHandle t ..< nextHandle t1}"
      unfolding r' using ec sc l1 by auto
    ultimately show ?thesis using f2 l1 by auto
  next
    case True
    from "1.prems"(4) True obtain cs1 s1 cs2 where
      pd: "patch_data (element r) (data (node r)) nodeNewData (children r) t = Inr (cs1, s1)" and
      rd: "remove_data (element r) (name (node r)) nodeNewData (data (node r)) cs1 s1 = Inr (cs2, s')" and
      r': "r' = NodeOld ?d (element r) (childrenRef r) cs2"
      by (auto simp: Let_def split: sum.splits)
    have cr: "elems_of (children r) \<subseteq> hs" using "1.prems"(3) elems_conv[of r] by auto
    from "1.IH"[OF refl refl refl _ "1.prems"(1,2) er cr pd] True
    have f1: "frame hs s s1" and l1: "nextHandle t \<le> nextHandle s1" and
      e1: "elems_of cs1 \<subseteq> elems_of (children r) \<union> {nextHandle t ..< nextHandle s1}"
      by auto
    have c1: "elems_of cs1 \<subseteq> hs"
      by (rule closed_sub[OF e1 cr "1.prems"(2) frame_nextHandle[OF "1.prems"(1)]])
    from remove_data_frame[OF f1 er c1 rd] obtain n where
      f2: "frame hs s s'" and c2: "cs2 = take n cs1" by auto
    from remove_data_frame[OF frame_refl er c1 rd]
    have l2: "nextHandle s1 \<le> nextHandle s'" by (auto dest: frame_nextHandle)
    have "elems_of cs2 \<subseteq> elems_of cs1" unfolding c2 by (rule elems_of_take)
    then have "elems_of cs2 \<subseteq> elems_of cs1 \<union> {nextHandle s1 ..< nextHandle s'}" by blast
    then have "elems_of cs2 \<subseteq> elems_of (children r) \<union> {nextHandle t ..< nextHandle s'}"
      by (rule widen_sub[OF _ e1 l1 l2])
    then have "elems r' \<subseteq> elems r \<union> {nextHandle t ..< nextHandle s'}"
      unfolding r' using elems_conv[of r] by auto
    then show ?thesis using f2 l1 l2 by auto
  qed
next
  case (2 el od cs t)
  then show ?case by auto
next
  case (3 el od keyNew valueNew rest cs t)
  let ?vo = "obj_get od keyNew"
  consider (skip) "strict_eq ?vo valueNew"
    | (children) "\<not> strict_eq ?vo valueNew" "keyNew = ''children''"
    | (other) "\<not> strict_eq ?vo valueNew" "keyNew \<noteq> ''children''" by blast
  then show ?case
  proof cases
    case skip
    then have "patch_data el od rest cs t = Inr (cs', s')" using "3.prems"(5) by simp
    from "3.IH"(1)[OF refl skip "3.prems"(1,2,3,4) this] show ?thesis .
  next
    case children
    from "3.prems"(5) children obtain a ns cs1 s1 where
      v: "valueNew = Array a ns" and
      pc: "patch_children el ?vo ns cs t = Inr (cs1, s1)" and
      pd: "patch_data el od rest cs1 s1 = Inr (cs', s')"
      by (auto split: val.splits sum.splits)
    from "3.IH"(2)[OF refl children v "3.prems"(1,2,3,4) pc]
    have f1: "frame hs s s1" and l1: "nextHandle t \<le> nextHandle s1" and
      e1: "elems_of cs1 \<subseteq> elems_of cs \<union> {nextHandle t ..< nextHandle s1}"
      by auto
    have c1: "elems_of cs1 \<subseteq> hs"
      by (rule closed_sub[OF e1 "3.prems"(4,2) frame_nextHandle[OF "3.prems"(1)]])
    from "3.IH"(3)[OF refl children v pc refl f1 "3.prems"(2,3) c1 pd]
    have f2: "frame hs s s'" and l2: "nextHandle s1 \<le> nextHandle s'" and
      e2: "elems_of cs' \<subseteq> elems_of cs1 \<union> {nextHandle s1 ..< nextHandle s'}"
      by auto
    have "elems_of cs' \<subseteq> elems_of cs \<union> {nextHandle t ..< nextHandle s'}"
      by (rule widen_sub[OF e2 e1 l1 l2])
    then show ?thesis using f2 l1 l2 by auto
  next
    case other
    from "3.prems"(5) other obtain t1 where
      pa: "patch_attribute el keyNew ?vo valueNew t = Inr t1" and
      pd: "patch_data el od rest cs t1 = Inr (cs', s')"
      by (auto split: sum.splits)
    from "3.IH"(4)[OF refl other pa patch_attribute_frame[OF "3.prems"(1,3) pa]
        "3.prems"(2,3,4) pd] patch_attribute_nextHandle[OF pa]
    show ?thesis by simp
  qed
next
  case (4 el vo ns cs t)
  consider (same) "length cs = length ns"
    | (shrink) "length cs \<noteq> length ns" "length ns < length cs"
    | (grow) "length cs \<noteq> length ns" "\<not> length ns < length cs" by blast
  then show ?case
  proof cases
    case same
    then have "patch_each vo 0 ns cs t = Inr (cs', s')" using "4.prems"(5) by simp
    from "4.IH"(1)[OF refl refl same "4.prems"(1,2,4) this] show ?thesis by simp
  next
    case shrink
    from "4.prems"(5) shrink obtain cs1 s1 where
      pe: "patch_each vo 0 ns cs t = Inr (cs1, s1)" and
      rc: "remove_children el (length cs - length ns) cs1 s1 = Inr (cs', s')"
      by (auto simp: Let_def split: sum.splits)
    from "4.IH"(2)[OF refl refl shrink "4.prems"(1,2,4) pe]
    have f1: "frame hs s s1" and l1: "nextHandle t \<le> nextHandle s1" and
      e1: "elems_of cs1 \<subseteq> elems_of cs \<union> {nextHandle t ..< nextHandle s1}"
      by auto
    have c1: "elems_of cs1 \<subseteq> hs"
      by (rule closed_sub[OF e1 "4.prems"(4,2) frame_nextHandle[OF "4.prems"(1)]])
    from remove_children_frame[OF f1 "4.prems"(3) c1 rc]
    have f2: "frame hs s s'" and c': "cs' = take (length cs1 - (length cs - length ns)) cs1"
      and l2: "nextHandle s' = nextHandle s1" by auto
    have "elems_of cs' \<subseteq> elems_of cs1" unfolding c' by (rule elems_of_take)
    then show ?thesis using f2 l1 l2 e1 by auto
  next
    case grow
    from "4.prems"(5) grow obtain cs1 s1 where
      pe: "patch_each vo 0 (take (length cs) ns) cs t = Inr (cs1, s1)" and
      cc: "create_children el (drop (length cs) ns) cs1 s1 = Inr (cs', s')"
      by (auto simp: Let_def split: sum.splits)
    from "4.IH"(3)[OF refl refl grow "4.prems"(1,2,4) pe]
    have f1: "frame hs s s1" and l1: "nextHandle t \<le> nextHandle s1" and
      e1: "elems_of cs1 \<subseteq> elems_of cs \<union> {nextHandle t ..< nextHandle s1}"
      by auto
    from create_children_frame[OF f1 "4.prems"(3) cc] obtain new where
      f2: "frame hs s s'" and l2: "nextHandle s1 \<le> nextHandle s'" and
      n: "cs' = cs1 @ new" "elems_of new \<subseteq> {nextHandle s1 ..< nextHandle s'}"
      by auto
    have "elems_of cs' \<subseteq> elems_of cs1 \<union> {nextHandle s1 ..< nextHandle s'}"
      using n by auto
    then have "elems_of cs' \<subseteq> elems_of cs \<union> {nextHandle t ..< nextHandle s'}"
      by (rule widen_sub[OF _ e1 l1 l2])
    then show ?thesis using f2 l1 l2 by auto
  qed
next
  case (5 vo i cs t)
  then show ?case by auto
next
  case (6 vo i childNew rest cs t)
  from "6.prems"(4) obtain old where oc: "old_child vo i = Inr old"
    by (auto split: sum.splits)
  show ?case
  proof (cases "old = Some childNew")
    case True
    then have "patch_each vo (Suc i) rest cs t = Inr (cs', s')" using "6.prems"(4) oc by simp
    from "6.IH"(1)[OF oc True "6.prems"(1,2,3) this] show ?thesis .
  next
    case False
    from "6.prems"(4) oc False have il: "i < length cs" by (auto split: if_splits)
    from "6.prems"(4) oc False il obtain c t1 where
      vp: "viewPatch (cs ! i) childNew t = Inr (c, t1)" and
      pe: "patch_each vo (Suc i) rest (cs[i := c]) t1 = Inr (cs', s')"
      by (auto split: sum.splits)
    have ci: "elems (cs ! i) \<subseteq> elems_of cs" using nth_mem[OF il] by blast
    then have ch: "elems (cs ! i) \<subseteq> hs" using "6.prems"(3) by blast
    from "6.IH"(2)[OF oc False il "6.prems"(1,2) ch vp]
    have f1: "frame hs s t1" and l1: "nextHandle t \<le> nextHandle t1" and
      e1: "elems c \<subseteq> elems (cs ! i) \<union> {nextHandle t ..< nextHandle t1}"
      by auto
    have u: "elems_of (cs[i := c]) \<subseteq> elems_of cs \<union> {nextHandle t ..< nextHandle t1}"
      using elems_of_update[of cs i c] e1 ci by blast
    have c1: "elems_of (cs[i := c]) \<subseteq> hs"
      by (rule closed_sub[OF u "6.prems"(3,2) frame_nextHandle[OF "6.prems"(1)]])
    from "6.IH"(3)[OF oc False il vp refl f1 "6.prems"(2) c1 pe]
    have f2: "frame hs s s'" and l2: "nextHandle t1 \<le> nextHandle s'" and
      len: "length cs' = length (cs[i := c])" and
      e2: "elems_of cs' \<subseteq> elems_of (cs[i := c]) \<union> {nextHandle t1 ..< nextHandle s'}"
      by auto
    have "elems_of cs' \<subseteq> elems_of cs \<union> {nextHandle t ..< nextHandle s'}"
      by (rule widen_sub[OF e2 u l1 l2])
    then show ?thesis using f2 l1 l2 len by auto
  qed
qed


subsection \<open>The children of a record and of its description\<close>

lemma well_formed_nodes_iff: "well_formed_nodes ns \<longleftrightarrow> (\<forall>c \<in> set ns. well_formed c)"
  by (induction ns) auto

lemma well_formed_nodes_take: "well_formed_nodes ns \<Longrightarrow> well_formed_nodes (take n ns)"
  by (auto simp: well_formed_nodes_iff dest: in_set_takeD)

lemma well_formed_nodes_drop: "well_formed_nodes ns \<Longrightarrow> well_formed_nodes (drop n ns)"
  by (auto simp: well_formed_nodes_iff dest: in_set_dropD)

lemma viewCreate_consistent:
  "well_formed d \<Longrightarrow> viewCreate d t = Inr (r, s') \<Longrightarrow> consistent r"
  and create_data_consistent:
  "well_formed_data kvs \<Longrightarrow> distinct (keys kvs) \<Longrightarrow> \<forall>c \<in> set cs. consistent c \<Longrightarrow>
   create_data el kvs cs t = Inr (cs', s') \<Longrightarrow>
     (\<forall>c \<in> set cs'. consistent c) \<and> length cs' = length cs + children_count kvs"
  and create_children_consistent:
  "well_formed_nodes ns \<Longrightarrow> \<forall>c \<in> set cs. consistent c \<Longrightarrow>
   create_children el ns cs t = Inr (cs', s') \<Longrightarrow>
     (\<forall>c \<in> set cs'. consistent c) \<and> length cs' = length cs + length ns"
proof (induction d t and el kvs cs t and el ns cs t
    arbitrary: r s' and cs' s' and cs' s'
    rule: viewCreate_create_data_create_children.induct)
  case (1 i nodeName nodeData t)
  obtain a t0 where na: "newArray t = (a, t0)" by (cases "newArray t")
  show ?case
  proof (cases "nodeName = ''text''")
    case True
    then show ?thesis using "1.prems"(2) na
      by (auto simp: implied_children_def children_count_def split: prod.splits)
  next
    case False
    obtain el t1 where ce: "createElement nodeName t0 = (el, t1)"
      by (cases "createElement nodeName t0")
    from "1.prems"(2) False na ce obtain cs where
      cd: "create_data el nodeData [] t1 = Inr (cs, s')" and
      r: "r = NodeOld (NodeNew i nodeName nodeData) el a cs"
      by (auto split: sum.splits)
    from "1.IH"[OF na[symmetric] refl False ce[symmetric] refl _ _ _ cd] "1.prems"(1)
    have "(\<forall>c \<in> set cs. consistent c) \<and> length cs = children_count nodeData" by simp
    then show ?thesis using r False
      by (simp add: implied_children_def children_count_def)
  qed
next
  case (2 el cs t)
  then show ?case by (simp add: children_count_def)
next
  case (3 el key v rest cs t)
  have dr: "distinct (keys rest)" and nk: "key \<notin> set (keys rest)"
    using "3.prems"(2) by (auto simp: keys_def)
  have wr: "well_formed_data rest" using "3.prems"(1) by simp
  show ?case
  proof (cases "key = ''children''")
    case True
    from "3.prems"(4) True obtain a ns cs1 s1 where
      v: "v = Array a ns" and
      cc: "create_children el ns cs t = Inr (cs1, s1)" and
      cd: "create_data el rest cs1 s1 = Inr (cs', s')"
      by (auto split: val.splits sum.splits)
    have wn: "well_formed_nodes ns" using "3.prems"(1) v by simp
    from "3.IH"(1)[OF True v wn "3.prems"(3) cc]
    have c1: "\<forall>c \<in> set cs1. consistent c" and l1: "length cs1 = length cs + length ns" by auto
    from "3.IH"(2)[OF True v cc refl wr dr c1 cd]
    have c2: "\<forall>c \<in> set cs'. consistent c" and l2: "length cs' = length cs1 + children_count rest"
      by auto
    have "map_of rest ''children'' = None" using nk True
      by (simp add: keys_def map_of_eq_None_iff)
    then have "children_count rest = 0" "children_count ((key, v) # rest) = length ns"
      using True v by (simp_all add: children_count_def)
    then show ?thesis using c2 l1 l2 by simp
  next
    case False
    from "3.prems"(4) False obtain t1 where
      ca: "create_attribute el key v t = Inr t1" and
      cd: "create_data el rest cs t1 = Inr (cs', s')"
      by (auto split: sum.splits)
    have "children_count ((key, v) # rest) = children_count rest"
      using False by (simp add: children_count_def)
    with "3.IH"(3)[OF False ca wr dr "3.prems"(3) cd] show ?thesis by simp
  qed
next
  case (4 el cs t)
  then show ?case by simp
next
  case (5 el child rest cs t)
  from "5.prems"(3) obtain c t1 where
    vc: "viewCreate child t = Inr (c, t1)" and
    cc: "create_children el rest (cs @ [c]) (appendChild el (element c) t1) = Inr (cs', s')"
    by (auto split: sum.splits)
  have wc: "well_formed child" and wr: "well_formed_nodes rest" using "5.prems"(1) by auto
  from "5.IH"(1)[OF wc vc] have "consistent c" .
  then have "\<forall>x \<in> set (cs @ [c]). consistent x" using "5.prems"(2) by auto
  from "5.IH"(2)[OF vc refl wr this cc] show ?case by simp
qed

lemma remove_data_children:
  "remove_data el nm nd old cs t = Inr (cs', s') \<Longrightarrow>
   cs' = (if ''children'' \<in> set (keys old) \<and> \<not> has_key ''children'' nd then [] else cs)"
proof (induction old arbitrary: cs t)
  case Nil
  then show ?case by (simp add: keys_def)
next
  case (Cons p old)
  obtain k v where p: "p = (k, v)" by (cases p)
  consider (skip) "has_key k nd"
    | (children) "\<not> has_key k nd" "k = ''children''"
    | (other) "\<not> has_key k nd" "k \<noteq> ''children''" by blast
  then show ?case
  proof cases
    case skip
    then have "remove_data el nm nd old cs t = Inr (cs', s')" using Cons.prems p by simp
    from Cons.IH[OF this] skip show ?thesis by (auto simp: p keys_def)
  next
    case children
    from Cons.prems children obtain cs1 s1 where
      rc: "remove_children el (length cs) cs t = Inr (cs1, s1)" and
      rd: "remove_data el nm nd old cs1 s1 = Inr (cs', s')"
      by (auto simp: p split: sum.splits)
    from remove_children_frame[OF frame_refl _ _ rc, of UNIV] have "cs1 = []" by simp
    with Cons.IH[OF rd] children show ?thesis by (auto simp: p keys_def)
  next
    case other
    from Cons.prems other obtain t1 where
      rd: "remove_data el nm nd old cs t1 = Inr (cs', s')"
      by (auto simp: p split: sum.splits)
    from Cons.IH[OF rd] other show ?thesis by (auto simp: p keys_def)
  qed
qed

lemma patch_data_children_typed:
  "patch_data el od nd cs t = Inr (cs', s') \<Longrightarrow> (''children'', w) \<in> set nd \<Longrightarrow>
   (\<exists>a ns. w = Array a ns) \<or> strict_eq (obj_get od ''children'') w"
proof (induction nd arbitrary: cs t)
  case Nil
  then show ?case by simp
next
  case (Cons p nd)
  obtain k v where p: "p = (k, v)" by (cases p)
  show ?case
  proof (cases "(k, v) = (''children'', w)")
    case True
    then show ?thesis using Cons.prems(1) p
      by (auto split: if_splits val.splits)
  next
    case False
    then have m: "(''children'', w) \<in> set nd" using Cons.prems(2) p by auto
    from Cons.prems(1) p obtain cs1 t1 where "patch_data el od nd cs1 t1 = Inr (cs', s')"
      by (auto simp: Let_def split: if_splits val.splits sum.splits)
    from Cons.IH[OF this m] show ?thesis .
  qed
qed

lemma viewPatch_consistent:
  "well_formed d \<Longrightarrow> consistent r \<Longrightarrow> viewPatch r d t = Inr (r', s') \<Longrightarrow> consistent r'"
  and patch_data_consistent:
  "well_formed_data nd \<Longrightarrow> distinct (keys nd) \<Longrightarrow> \<forall>c \<in> set cs. consistent c \<Longrightarrow>
   patch_data el od nd cs t = Inr (cs', s') \<Longrightarrow>
     (\<forall>c \<in> set cs'. consistent c)
     \<and> length cs' =
         (case map_of nd ''children'' of
            Some (Array a ns) \<Rightarrow>
              if strict_eq (obj_get od ''children'') (Array a ns) then length cs else length ns
          | _ \<Rightarrow> length cs)"
  and patch_children_consistent:
  "well_formed_nodes ns \<Longrightarrow> \<forall>c \<in> set cs. consistent c \<Longrightarrow>
   patch_children el vo ns cs t = Inr (cs', s') \<Longrightarrow>
     (\<forall>c \<in> set cs'. consistent c) \<and> length cs' = length ns"
  and patch_each_consistent:
  "well_formed_nodes ns \<Longrightarrow> \<forall>c \<in> set cs. consistent c \<Longrightarrow>
   patch_each vo i ns cs t = Inr (cs', s') \<Longrightarrow>
     (\<forall>c \<in> set cs'. consistent c) \<and> length cs' = length cs"
proof (induction r d t and el od nd cs t and el vo ns cs t and vo i ns cs t
    arbitrary: r' s' and cs' s' and cs' s' and cs' s'
    rule: viewPatch_patch_data_patch_children_patch_each.induct)
  case (1 r i nodeNewName nodeNewData t)
  let ?d = "NodeNew i nodeNewName nodeNewData"
  define d0 where "d0 = node r"
  define cs0 where "cs0 = children r"
  have c0: "\<forall>c \<in> set cs0. consistent c" and l0: "length cs0 = implied_children d0"
    using "1.prems"(2) unfolding d0_def cs0_def by (cases r; simp)+
  show ?case
  proof (cases "name (node r) = nodeNewName")
    case False
    from "1.prems"(3) False obtain c t1 where
      vc: "viewCreate ?d t = Inr (c, t1)" and
      r': "r' = NodeOld ?d (element c) (childrenRef c) (children c)"
      by (auto simp: Let_def split: sum.splits option.splits)
    from viewCreate_consistent[OF "1.prems"(1) vc] viewCreate_frame[OF frame_refl vc]
    show ?thesis unfolding r' by (cases c) auto
  next
    case True
    from "1.prems"(3) True obtain cs1 s1 cs2 where
      pd: "patch_data (element r) (data (node r)) nodeNewData (children r) t = Inr (cs1, s1)" and
      rd: "remove_data (element r) (name (node r)) nodeNewData (data (node r)) cs1 s1 = Inr (cs2, s')" and
      r': "r' = NodeOld ?d (element r) (childrenRef r) cs2"
      by (auto simp: Let_def split: sum.splits)
    have wd: "well_formed_data nodeNewData" and dk: "distinct (keys nodeNewData)"
      and tx: "nodeNewName = ''text'' \<longrightarrow> \<not> has_key ''children'' nodeNewData"
      using "1.prems"(1) by auto
    from "1.IH"[OF refl refl refl _ wd dk _ pd] True c0
    have c1: "\<forall>c \<in> set cs1. consistent c" and
      l1: "length cs1 =
         (case map_of nodeNewData ''children'' of
            Some (Array a ns) \<Rightarrow>
              if strict_eq (obj_get (data d0) ''children'') (Array a ns) then length cs0 else length ns
          | _ \<Rightarrow> length cs0)"
      unfolding d0_def cs0_def by auto
    note c2 = remove_data_children[OF rd]
    have sub: "set cs2 \<subseteq> set cs1" using c2 by (auto split: if_splits)
    have nm: "name d0 = nodeNewName" using True d0_def by simp
    have pd0: "patch_data (element r) (data d0) nodeNewData cs0 t = Inr (cs1, s1)"
      using pd unfolding d0_def cs0_def .
    have c2: "cs2 = (if ''children'' \<in> set (keys (data d0)) \<and> \<not> has_key ''children'' nodeNewData
                   then [] else cs1)"
      using c2 unfolding d0_def .
    have "length cs2 = implied_children ?d"
    proof (cases "map_of nodeNewData ''children''")
      case None
      then have nh: "\<not> has_key ''children'' nodeNewData" by (simp add: has_key_def)
      have i0: "implied_children ?d = 0" using None
        by (simp add: implied_children_def children_count_def)
      show ?thesis
      proof (cases "''children'' \<in> set (keys (data d0))")
        case True
        then show ?thesis using c2 nh i0 by simp
      next
        case False
        then have "map_of (data d0) ''children'' = None"
          by (simp add: keys_def map_of_eq_None_iff)
        then have "implied_children d0 = 0"
          by (simp add: implied_children_def children_count_def)
        then show ?thesis using c2 False l1 None l0 i0 by simp
      qed
    next
      case (Some w)
      then have hk: "has_key ''children'' nodeNewData" by (simp add: has_key_def)
      then have nt: "nodeNewName \<noteq> ''text''" using tx by blast
      have e2: "cs2 = cs1" using c2 hk by simp
      show ?thesis
      proof (cases w)
        case (Array a ns)
        have i1: "implied_children ?d = length ns"
          using Some Array nt by (simp add: implied_children_def children_count_def)
        show ?thesis
        proof (cases "strict_eq (obj_get (data d0) ''children'') (Array a ns)")
          case True
          then have "map_of (data d0) ''children'' = Some (Array a ns)"
            by (auto simp: strict_eq_def obj_get_def split: option.splits)
          then have "implied_children d0 = length ns" using nm nt
            by (simp add: implied_children_def children_count_def)
          then show ?thesis using l1 Some Array True l0 i1 e2 by simp
        next
          case False
          then show ?thesis using l1 Some Array i1 e2 by simp
        qed
      next
        case (Prim x)
        have i1: "implied_children ?d = 0" using Some Prim
          by (simp add: implied_children_def children_count_def)
        have l1': "length cs1 = length cs0" using l1 Some Prim by simp
        have "strict_eq (obj_get (data d0) ''children'') (Prim x)"
          using patch_data_children_typed[OF pd0 map_of_SomeD[OF Some]] Prim by simp
        then have "implied_children d0 = 0"
          by (auto simp: strict_eq_def obj_get_def implied_children_def children_count_def
              split: option.splits)
        then show ?thesis using l1' l0 i1 e2 by simp
      next
        case (Object x y)
        have i1: "implied_children ?d = 0" using Some Object
          by (simp add: implied_children_def children_count_def)
        have l1': "length cs1 = length cs0" using l1 Some Object by simp
        have "strict_eq (obj_get (data d0) ''children'') (Object x y)"
          using patch_data_children_typed[OF pd0 map_of_SomeD[OF Some]] Object by simp
        then have "implied_children d0 = 0"
          by (auto simp: strict_eq_def obj_get_def implied_children_def children_count_def
              split: option.splits)
        then show ?thesis using l1' l0 i1 e2 by simp
      qed
    qed
    moreover have "\<forall>c \<in> set cs2. consistent c" using c1 sub by blast
    ultimately show ?thesis unfolding r' by simp
  qed
next
  case (2 el od cs t)
  then show ?case by simp
next
  case (3 el od keyNew valueNew rest cs t)
  let ?vo = "obj_get od keyNew"
  have dr: "distinct (keys rest)" and nk: "keyNew \<notin> set (keys rest)"
    using "3.prems"(2) by (auto simp: keys_def)
  have wr: "well_formed_data rest" using "3.prems"(1) by simp
  have none: "keyNew = ''children'' \<Longrightarrow> map_of rest ''children'' = None"
    using nk by (simp add: keys_def map_of_eq_None_iff)
  consider (skip) "strict_eq ?vo valueNew"
    | (children) "\<not> strict_eq ?vo valueNew" "keyNew = ''children''"
    | (other) "\<not> strict_eq ?vo valueNew" "keyNew \<noteq> ''children''" by blast
  then show ?case
  proof cases
    case skip
    then have pd: "patch_data el od rest cs t = Inr (cs', s')" using "3.prems"(4) by simp
    from "3.IH"(1)[OF refl skip wr dr "3.prems"(3) pd] skip none
    show ?thesis by (auto split: val.splits)
  next
    case children
    from "3.prems"(4) children obtain a ns cs1 s1 where
      v: "valueNew = Array a ns" and
      pc: "patch_children el ?vo ns cs t = Inr (cs1, s1)" and
      pd: "patch_data el od rest cs1 s1 = Inr (cs', s')"
      by (auto split: val.splits sum.splits)
    have wn: "well_formed_nodes ns" using "3.prems"(1) v by simp
    from "3.IH"(2)[OF refl children v wn "3.prems"(3) pc]
    have c1: "\<forall>c \<in> set cs1. consistent c" and l1: "length cs1 = length ns" by auto
    from "3.IH"(3)[OF refl children v pc refl wr dr c1 pd] none[OF children(2)] children v l1
    show ?thesis by simp
  next
    case other
    from "3.prems"(4) other obtain t1 where
      pa: "patch_attribute el keyNew ?vo valueNew t = Inr t1" and
      pd: "patch_data el od rest cs t1 = Inr (cs', s')"
      by (auto split: sum.splits)
    from "3.IH"(4)[OF refl other pa wr dr "3.prems"(3) pd] other
    show ?thesis by simp
  qed
next
  case (4 el vo ns cs t)
  consider (same) "length cs = length ns"
    | (shrink) "length cs \<noteq> length ns" "length ns < length cs"
    | (grow) "length cs \<noteq> length ns" "\<not> length ns < length cs" by blast
  then show ?case
  proof cases
    case same
    then have "patch_each vo 0 ns cs t = Inr (cs', s')" using "4.prems"(3) by simp
    from "4.IH"(1)[OF refl refl same "4.prems"(1,2) this] same show ?thesis by simp
  next
    case shrink
    from "4.prems"(3) shrink obtain cs1 s1 where
      pe: "patch_each vo 0 ns cs t = Inr (cs1, s1)" and
      rc: "remove_children el (length cs - length ns) cs1 s1 = Inr (cs', s')"
      by (auto simp: Let_def split: sum.splits)
    from "4.IH"(2)[OF refl refl shrink "4.prems"(1,2) pe]
    have c1: "\<forall>c \<in> set cs1. consistent c" and l1: "length cs1 = length cs" by auto
    from remove_children_frame[OF frame_refl _ _ rc, of UNIV]
    have "cs' = take (length cs1 - (length cs - length ns)) cs1" by simp
    then show ?thesis using c1 l1 shrink by (auto dest: in_set_takeD)
  next
    case grow
    from "4.prems"(3) grow obtain cs1 s1 where
      pe: "patch_each vo 0 (take (length cs) ns) cs t = Inr (cs1, s1)" and
      cc: "create_children el (drop (length cs) ns) cs1 s1 = Inr (cs', s')"
      by (auto simp: Let_def split: sum.splits)
    from "4.IH"(3)[OF refl refl grow well_formed_nodes_take[OF "4.prems"(1)] "4.prems"(2) pe]
    have c1: "\<forall>c \<in> set cs1. consistent c" and l1: "length cs1 = length cs" by auto
    from create_children_consistent[OF well_formed_nodes_drop[OF "4.prems"(1)] c1 cc] l1 grow
    show ?thesis by simp
  qed
next
  case (5 vo i cs t)
  then show ?case by simp
next
  case (6 vo i childNew rest cs t)
  from "6.prems"(3) obtain old where oc: "old_child vo i = Inr old"
    by (auto split: sum.splits)
  have wc: "well_formed childNew" and wr: "well_formed_nodes rest" using "6.prems"(1) by auto
  show ?case
  proof (cases "old = Some childNew")
    case True
    then have "patch_each vo (Suc i) rest cs t = Inr (cs', s')" using "6.prems"(3) oc by simp
    from "6.IH"(1)[OF oc True wr "6.prems"(2) this] show ?thesis .
  next
    case False
    from "6.prems"(3) oc False have il: "i < length cs" by (auto split: if_splits)
    from "6.prems"(3) oc False il obtain c t1 where
      vp: "viewPatch (cs ! i) childNew t = Inr (c, t1)" and
      pe: "patch_each vo (Suc i) rest (cs[i := c]) t1 = Inr (cs', s')"
      by (auto split: sum.splits)
    have "consistent (cs ! i)" using "6.prems"(2) il by simp
    from "6.IH"(2)[OF oc False il wc this vp] have cc: "consistent c" .
    have "\<forall>x \<in> set (cs[i := c]). consistent x"
      using "6.prems"(2) cc set_update_subset_insert[of cs i c] by blast
    from "6.IH"(3)[OF oc False il vp refl wr this pe] show ?thesis by simp
  qed
qed


text \<open>
  C8. After a completed \<^verbatim>\<open>viewCreate\<close> of a well-formed description, and after a completed
  \<^verbatim>\<open>viewPatch\<close> of a record for which it held before with a well-formed description, every
  record of the tree has as many child records as its description implies: the length of
  the \<^verbatim>\<open>children\<close> attribute, or zero when there is none or the kind is text.
\<close>

theorem children_match_description:
  "(well_formed d \<and> viewCreate d s = Inr (r, s1) \<longrightarrow> consistent r) \<and>
   (well_formed d \<and> consistent r0 \<and> viewPatch r0 d s = Inr (r', s') \<longrightarrow> consistent r')"
  using viewCreate_consistent viewPatch_consistent by blast

lemmas dom_ops = initial_def newArray_def createElement_def createTextNode_def emit_def
  appendChild_def removeChild_def replaceChild_def obj_get_def strict_eq_def has_key_def Let_def

theorem children_match_description_witness:
  "\<exists>r1 s1 r2 s2.
     viewCreate (NodeNew 1 ''div'' [(''children'',
         Array 10 [NodeNew 2 ''p'' [], NodeNew 3 ''text'' [(''data'', Prim (Str ''x''))]])]) initial
       = Inr (r1, s1)
     \<and> consistent r1 \<and> length (children r1) = 2
     \<and> viewPatch r1 (NodeNew 4 ''div'' [(''children'', Array 11 [NodeNew 5 ''p'' []])]) s1
       = Inr (r2, s2)
     \<and> consistent r2 \<and> length (children r2) = 1"
proof -
  let ?d1 = "NodeNew 1 ''div'' [(''children'',
         Array 10 [NodeNew 2 ''p'' [], NodeNew 3 ''text'' [(''data'', Prim (Str ''x''))]])]"
  let ?d2 = "NodeNew 4 ''div'' [(''children'', Array 11 [NodeNew 5 ''p'' []])]"
  define r1 where "r1 = fst (projr (viewCreate ?d1 initial))"
  define s1 where "s1 = snd (projr (viewCreate ?d1 initial))"
  define r2 where "r2 = fst (projr (viewPatch r1 ?d2 s1))"
  define s2 where "s2 = snd (projr (viewPatch r1 ?d2 s1))"
  have e1: "viewCreate ?d1 initial = Inr (r1, s1)"
    unfolding r1_def s1_def by (simp add: dom_ops)
  have l1: "length (children r1) = 2" unfolding r1_def by (simp add: dom_ops)
  have w1: "well_formed ?d1" by (simp add: keys_def has_key_def)
  have w2: "well_formed ?d2" by (simp add: keys_def has_key_def)
  have e2: "viewPatch r1 ?d2 s1 = Inr (r2, s2) \<and> length (children r2) = 1"
    unfolding r2_def s2_def r1_def s1_def by (simp add: dom_ops)
  from children_match_description[of ?d1 initial r1 s1] e1 w1 have c1: "consistent r1" by blast
  from children_match_description[of ?d2 s1 _ _ r1 r2 s2] e2 w2 c1 have c2: "consistent r2"
    by blast
  from e1 l1 e2 c1 c2 show ?thesis by blast
qed


subsection \<open>Structural replacement\<close>

lemma frame_effects: "frame hs s t \<Longrightarrow> \<exists>es. effects t = effects s @ es"
  by (auto simp: frame_def)

lemma viewCreate_first_call:
  assumes "viewCreate d t = Inr (c, s1)"
  shows "\<exists>es. effects s1 = effects t @
            (if name d = ''text'' then CreateTextNode (obj_get (data d) ''data'') (element c)
             else CreateElement (name d) (element c)) # es"
proof -
  obtain i nodeName nodeData where d: "d = NodeNew i nodeName nodeData" by (cases d)
  show ?thesis
  proof (cases "nodeName = ''text''")
    case True
    then show ?thesis using assms d
      by (auto simp: newArray_def createTextNode_def emit_def Let_def)
  next
    case False
    obtain a t0 where na: "newArray t = (a, t0)" by (cases "newArray t")
    obtain el t1 where ce: "createElement nodeName t0 = (el, t1)"
      by (cases "createElement nodeName t0")
    from assms False na ce d obtain cs where
      cd: "create_data el nodeData [] t1 = Inr (cs, s1)" and
      c: "c = NodeOld (NodeNew i nodeName nodeData) el a cs"
      by (auto split: sum.splits)
    from create_data_frame[OF frame_refl _ cd, of "{el}"] obtain es where
      "effects s1 = effects t1 @ es" by (auto dest: frame_effects)
    moreover have "effects t1 = effects t @ [CreateElement nodeName el]"
      using na ce by (auto simp: newArray_def createElement_def emit_def Let_def)
    ultimately show ?thesis using False d c by simp
  qed
qed

text \<open>
  C3. When the kind of the old description differs from the kind of the new one, and the
  old resource has a parent, \<^verbatim>\<open>viewPatch\<close> returns the record of \<^verbatim>\<open>viewCreate(nodeNew)\<close>: its
  node is the new description, its element and its children array are new, none of its
  DOM nodes is a node of the old record, and the first call made is the creation of an
  element of the new kind. Every call of the creation is made for a node created by it
  (so nothing is read from or written to the old element or its children), and the one
  call after it puts the new element in the place of the old one under its parent.
\<close>

theorem viewPatch_other_kind_replaces:
  assumes "name (node r) \<noteq> name d"
    and "viewCreate d s = Inr (c, s1)"
    and "parentNode s (element r) = Some p"
    and "elems r \<subseteq> {..< nextHandle s}"
  shows "viewPatch r d s = Inr (c, replaceChild p (element c) (element r) s1)
       \<and> node c = d \<and> element c = nextHandle s \<and> childrenRef c = nextArray s
       \<and> elems c \<inter> elems r = {}
       \<and> frame {} s s1
       \<and> (\<exists>es. effects s1 = effects s @
              (if name d = ''text'' then CreateTextNode (obj_get (data d) ''data'') (element c)
               else CreateElement (name d) (element c)) # es)
       \<and> effects (replaceChild p (element c) (element r) s1)
           = effects s1 @ [ReplaceChild p (element c) (element r)]
       \<and> parentNode (replaceChild p (element c) (element r) s1) (element c) = Some p
       \<and> parentNode (replaceChild p (element c) (element r) s1) (element r) = None"
proof -
  from viewCreate_frame[OF frame_refl assms(2), of "{}"]
  have f: "frame {} s s1" and ec: "element c = nextHandle s" and nc: "node c = d"
    and ac: "childrenRef c = nextArray s"
    and sc: "elems_of (children c) \<subseteq> {Suc (nextHandle s) ..< nextHandle s1}"
    by auto
  have er: "element r < nextHandle s" using assms(4) element_in_elems[of r] by auto
  then have pn: "parentNode s1 (element r) = Some p" using f assms(3) by (simp add: frame_def)
  have c: "NodeOld d (element c) (childrenRef c) (children c) = c" using nc by (cases c) simp
  have vp: "viewPatch r d s = Inr (c, replaceChild p (element c) (element r) s1)"
    using assms(1,2) pn c by (cases d) (auto simp: Let_def)
  have "elems c \<subseteq> {nextHandle s ..< nextHandle s1}"
    using ec sc frame_nextHandle[OF f] elems_conv[of c] viewCreate_frame[OF frame_refl assms(2), of "{}"]
    by auto
  then have dis: "elems c \<inter> elems r = {}" using assms(4) by fastforce
  have ne: "element c \<noteq> element r" using ec er by simp
  show ?thesis
    using vp nc ec ac dis f viewCreate_first_call[OF assms(2)] ne
    by (simp add: replaceChild_def emit_def)
qed

theorem viewPatch_other_kind_replaces_witness:
  "let page = viewCreate (NodeNew 0 ''section'' [(''children'', Array 1
                 [NodeNew 2 ''div'' [(''class'', Prim (Str ''a'')),
                                      (''children'', Array 3 [NodeNew 4 ''p'' []])]])]) initial;
       r = hd (children (fst (projr page)));
       s = snd (projr page)
   in element r = 1 \<and> map element (children r) = [2]
    \<and> (\<exists>r' s'. viewPatch r (NodeNew 5 ''span'' [(''id'', Prim (Str ''s''))]) s = Inr (r', s')
          \<and> element r' = 3 \<and> children r' = []
          \<and> effects s' = effects s @ [CreateElement ''span'' 3,
                                        SetProperty 3 ''id'' (Given (Prim (Str ''s''))),
                                        ReplaceChild 0 3 1])"
proof -
  let ?page = "viewCreate (NodeNew 0 ''section'' [(''children'', Array 1
                 [NodeNew 2 ''div'' [(''class'', Prim (Str ''a'')),
                                      (''children'', Array 3 [NodeNew 4 ''p'' []])]])]) initial"
  let ?span = "NodeNew 5 ''span'' [(''id'', Prim (Str ''s''))]"
  define r where "r = hd (children (fst (projr ?page)))"
  define s where "s = snd (projr ?page)"
  define c where "c = fst (projr (viewCreate ?span s))"
  define s1 where "s1 = snd (projr (viewCreate ?span s))"
  have r1: "element r = 1 \<and> map element (children r) = [2]"
    unfolding r_def by (simp add: dom_ops create_attribute_def)
  have h1: "name (node r) \<noteq> name ?span"
    unfolding r_def by (simp add: dom_ops create_attribute_def)
  have h2: "viewCreate ?span s = Inr (c, s1)"
    unfolding c_def s1_def s_def by (simp add: dom_ops create_attribute_def)
  have h3: "parentNode s (element r) = Some 0"
    unfolding r_def s_def by (simp add: dom_ops create_attribute_def)
  have h4: "elems r \<subseteq> {..< nextHandle s}"
    unfolding r_def s_def by (simp add: dom_ops create_attribute_def)
  have c3: "element c = 3 \<and> children c = []
      \<and> effects s1 = effects s @ [CreateElement ''span'' 3,
                                    SetProperty 3 ''id'' (Given (Prim (Str ''s'')))]"
    unfolding c_def s1_def s_def by (simp add: dom_ops create_attribute_def)
  from viewPatch_other_kind_replaces[OF h1 h2 h3 h4] c3 r1
  have "viewPatch r ?span s = Inr (c, replaceChild 0 3 1 s1)
      \<and> effects (replaceChild 0 3 1 s1) = effects s @ [CreateElement ''span'' 3,
                                        SetProperty 3 ''id'' (Given (Prim (Str ''s''))),
                                        ReplaceChild 0 3 1]"
    by simp
  with c3 r1 show ?thesis unfolding Let_def r_def[symmetric] s_def[symmetric] by blast
qed


subsection \<open>The children of a patched record\<close>

lemma old_child_same:
  "old_child vo i = Inr old \<Longrightarrow>
   (old = Some n) = (\<exists>a os. vo = Array a os \<and> i < length os \<and> os ! i = n)"
  by (cases "(vo, i)" rule: old_child.cases) (auto split: if_splits)

lemma patch_each_trace:
  "patch_each vo i ns cs t = Inr (cs1, s1) \<Longrightarrow>
   length cs1 = length cs
   \<and> (\<exists>ts. length ts = Suc (length ns) \<and> ts ! 0 = t \<and> ts ! length ns = s1
        \<and> (\<forall>j < length ns.
             if (\<exists>a os. vo = Array a os \<and> i + j < length os \<and> os ! (i + j) = ns ! j)
             then ts ! Suc j = ts ! j \<and> cs1 ! (i + j) = cs ! (i + j)
             else viewPatch (cs ! (i + j)) (ns ! j) (ts ! j) = Inr (cs1 ! (i + j), ts ! Suc j)))
   \<and> (\<forall>k. k < i \<longrightarrow> cs1 ! k = cs ! k)
   \<and> (\<forall>k. i + length ns \<le> k \<and> k < length cs \<longrightarrow> cs1 ! k = cs ! k)"
proof (induction ns arbitrary: i cs t)
  case Nil
  then show ?case by (auto intro: exI[of _ "[t]"])
next
  case (Cons childNew rest)
  from Cons.prems obtain old where oc: "old_child vo i = Inr old"
    by (auto split: sum.splits)
  note same = old_child_same[OF oc, of childNew]
  show ?case
  proof (cases "old = Some childNew")
    case True
    then have pe: "patch_each vo (Suc i) rest cs t = Inr (cs1, s1)" using Cons.prems oc by simp
    from Cons.IH[OF pe] obtain ts where
      l: "length cs1 = length cs" and
      ts: "length ts = Suc (length rest)" "ts ! 0 = t" "ts ! length rest = s1" and
      st: "\<And>m. m < length rest \<Longrightarrow>
             if (\<exists>a os. vo = Array a os \<and> Suc i + m < length os \<and> os ! (Suc i + m) = rest ! m)
             then ts ! Suc m = ts ! m \<and> cs1 ! (Suc i + m) = cs ! (Suc i + m)
             else viewPatch (cs ! (Suc i + m)) (rest ! m) (ts ! m)
                    = Inr (cs1 ! (Suc i + m), ts ! Suc m)" and
      lo: "\<And>k. k < Suc i \<Longrightarrow> cs1 ! k = cs ! k" and
      hi: "\<And>k. Suc i + length rest \<le> k \<Longrightarrow> k < length cs \<Longrightarrow> cs1 ! k = cs ! k"
      by blast
    have "\<forall>j < length (childNew # rest).
             if (\<exists>a os. vo = Array a os \<and> i + j < length os \<and> os ! (i + j) = (childNew # rest) ! j)
             then (t # ts) ! Suc j = (t # ts) ! j \<and> cs1 ! (i + j) = cs ! (i + j)
             else viewPatch (cs ! (i + j)) ((childNew # rest) ! j) ((t # ts) ! j)
                    = Inr (cs1 ! (i + j), (t # ts) ! Suc j)"
    proof (intro allI impI)
      fix j assume j: "j < length (childNew # rest)"
      show "if (\<exists>a os. vo = Array a os \<and> i + j < length os \<and> os ! (i + j) = (childNew # rest) ! j)
             then (t # ts) ! Suc j = (t # ts) ! j \<and> cs1 ! (i + j) = cs ! (i + j)
             else viewPatch (cs ! (i + j)) ((childNew # rest) ! j) ((t # ts) ! j)
                    = Inr (cs1 ! (i + j), (t # ts) ! Suc j)"
      proof (cases j)
        case 0
        have "\<exists>a os. vo = Array a os \<and> i < length os \<and> os ! i = childNew"
          using same True by simp
        then show ?thesis using 0 ts(2) lo[of i] by simp
      next
        case (Suc m)
        then have "m < length rest" using j by simp
        from st[OF this] show ?thesis using Suc by (auto split: if_splits)
      qed
    qed
    moreover have "length (t # ts) = Suc (length (childNew # rest))" using ts(1) by simp
    moreover have "(t # ts) ! 0 = t" by simp
    moreover have "(t # ts) ! length (childNew # rest) = s1" using ts(3) by simp
    ultimately have "\<exists>ts. length ts = Suc (length (childNew # rest)) \<and> ts ! 0 = t
        \<and> ts ! length (childNew # rest) = s1
        \<and> (\<forall>j < length (childNew # rest).
             if (\<exists>a os. vo = Array a os \<and> i + j < length os \<and> os ! (i + j) = (childNew # rest) ! j)
             then ts ! Suc j = ts ! j \<and> cs1 ! (i + j) = cs ! (i + j)
             else viewPatch (cs ! (i + j)) ((childNew # rest) ! j) (ts ! j)
                    = Inr (cs1 ! (i + j), ts ! Suc j))"
      by (intro exI[of _ "t # ts"] conjI)
    then show ?thesis using l lo hi by simp
  next
    case False
    from Cons.prems oc False have il: "i < length cs" by (auto split: if_splits)
    from Cons.prems oc False il obtain c t1 where
      vp: "viewPatch (cs ! i) childNew t = Inr (c, t1)" and
      pe: "patch_each vo (Suc i) rest (cs[i := c]) t1 = Inr (cs1, s1)"
      by (auto split: sum.splits)
    from Cons.IH[OF pe] obtain ts where
      l: "length cs1 = length cs" and
      ts: "length ts = Suc (length rest)" "ts ! 0 = t1" "ts ! length rest = s1" and
      st: "\<And>m. m < length rest \<Longrightarrow>
             if (\<exists>a os. vo = Array a os \<and> Suc i + m < length os \<and> os ! (Suc i + m) = rest ! m)
             then ts ! Suc m = ts ! m \<and> cs1 ! (Suc i + m) = (cs[i := c]) ! (Suc i + m)
             else viewPatch ((cs[i := c]) ! (Suc i + m)) (rest ! m) (ts ! m)
                    = Inr (cs1 ! (Suc i + m), ts ! Suc m)" and
      lo: "\<And>k. k < Suc i \<Longrightarrow> cs1 ! k = (cs[i := c]) ! k" and
      hi: "\<And>k. Suc i + length rest \<le> k \<Longrightarrow> k < length cs \<Longrightarrow> cs1 ! k = (cs[i := c]) ! k"
      by (simp del: nth_list_update) blast
    have ci: "cs1 ! i = c" using lo[of i] il by simp
    have "\<forall>j < length (childNew # rest).
             if (\<exists>a os. vo = Array a os \<and> i + j < length os \<and> os ! (i + j) = (childNew # rest) ! j)
             then (t # ts) ! Suc j = (t # ts) ! j \<and> cs1 ! (i + j) = cs ! (i + j)
             else viewPatch (cs ! (i + j)) ((childNew # rest) ! j) ((t # ts) ! j)
                    = Inr (cs1 ! (i + j), (t # ts) ! Suc j)"
    proof (intro allI impI)
      fix j assume j: "j < length (childNew # rest)"
      show "if (\<exists>a os. vo = Array a os \<and> i + j < length os \<and> os ! (i + j) = (childNew # rest) ! j)
             then (t # ts) ! Suc j = (t # ts) ! j \<and> cs1 ! (i + j) = cs ! (i + j)
             else viewPatch (cs ! (i + j)) ((childNew # rest) ! j) ((t # ts) ! j)
                    = Inr (cs1 ! (i + j), (t # ts) ! Suc j)"
      proof (cases j)
        case 0
        have "\<not> (\<exists>a os. vo = Array a os \<and> i < length os \<and> os ! i = childNew)"
          using same False by simp
        then show ?thesis using 0 ts(2) vp ci by auto
      next
        case (Suc m)
        then have "m < length rest" using j by simp
        from st[OF this] show ?thesis using Suc by (auto split: if_splits)
      qed
    qed
    moreover have "length (t # ts) = Suc (length (childNew # rest))" using ts(1) by simp
    moreover have "(t # ts) ! 0 = t" by simp
    moreover have "(t # ts) ! length (childNew # rest) = s1" using ts(3) by simp
    ultimately have "\<exists>ts. length ts = Suc (length (childNew # rest)) \<and> ts ! 0 = t
        \<and> ts ! length (childNew # rest) = s1
        \<and> (\<forall>j < length (childNew # rest).
             if (\<exists>a os. vo = Array a os \<and> i + j < length os \<and> os ! (i + j) = (childNew # rest) ! j)
             then ts ! Suc j = ts ! j \<and> cs1 ! (i + j) = cs ! (i + j)
             else viewPatch (cs ! (i + j)) ((childNew # rest) ! j) (ts ! j)
                    = Inr (cs1 ! (i + j), ts ! Suc j))"
      by (intro exI[of _ "t # ts"] conjI)
    moreover have "\<forall>k. k < i \<longrightarrow> cs1 ! k = cs ! k" using lo by simp
    moreover have "\<forall>k. i + length (childNew # rest) \<le> k \<and> k < length cs \<longrightarrow> cs1 ! k = cs ! k"
      using hi by simp
    ultimately show ?thesis using l by simp
  qed
qed

lemma remove_children_effects:
  "remove_children el k cs t = Inr (cs', s') \<Longrightarrow>
   k \<le> length cs \<and> cs' = take (length cs - k) cs \<and> nextHandle s' = nextHandle t
   \<and> effects s' = effects t @ map (\<lambda>c. RemoveChild el (element c)) (rev (drop (length cs - k) cs))"
proof (induction k arbitrary: cs t)
  case 0
  then show ?case by simp
next
  case (Suc k)
  have ne: "cs \<noteq> []" using Suc.prems by (auto split: if_splits)
  then have r: "remove_children el k (butlast cs) (removeChild el (element (last cs)) t) = Inr (cs', s')"
    using Suc.prems by simp
  from remove_children_frame[OF frame_refl _ _ Suc.prems, of UNIV]
  have a: "Suc k \<le> length cs" "cs' = take (length cs - Suc k) cs" "nextHandle s' = nextHandle t"
    by auto
  from Suc.IH[OF r]
  have e: "effects s' = effects (removeChild el (element (last cs)) t)
        @ map (\<lambda>c. RemoveChild el (element c)) (rev (drop (length (butlast cs) - k) (butlast cs)))"
    by simp
  have d: "drop (length cs - Suc k) cs = drop (length (butlast cs) - k) (butlast cs) @ [last cs]"
  proof -
    have "drop (length cs - Suc k) (butlast cs @ [last cs])
        = drop (length cs - Suc k) (butlast cs) @ [last cs]"
      using a(1) by (simp add: drop_append)
    then show ?thesis using ne by simp
  qed
  show ?case using a e d by (simp add: removeChild_def emit_def)
qed

lemma create_children_appends:
  "el < nextHandle t \<Longrightarrow> create_children el ns cs t = Inr (cs', s') \<Longrightarrow>
   \<exists>new es. cs' = cs @ new \<and> map node new = ns \<and> effects s' = effects t @ es
     \<and> filter (\<lambda>e. subject e = el) es = map (\<lambda>c. AppendChild el (element c)) new
     \<and> elems_of new \<subseteq> {nextHandle t ..< nextHandle s'}"
proof (induction ns arbitrary: cs t)
  case Nil
  then show ?case by simp
next
  case (Cons child rest)
  from Cons.prems(2) obtain c t1 where
    vc: "viewCreate child t = Inr (c, t1)" and
    cc: "create_children el rest (cs @ [c]) (appendChild el (element c) t1) = Inr (cs', s')"
    by (auto split: sum.splits)
  from viewCreate_frame[OF frame_refl vc, of "{}"]
  have f: "frame {} t t1" and l1: "nextHandle t < nextHandle t1" and nc: "node c = child"
    and ec: "element c = nextHandle t"
    and sc: "elems_of (children c) \<subseteq> {Suc (nextHandle t) ..< nextHandle t1}" by auto
  from f obtain es1 where es1: "effects t1 = effects t @ es1"
    "\<forall>e \<in> set es1. nextHandle t \<le> subject e" by (auto simp: frame_def)
  have q: "filter (\<lambda>e. subject e = el) es1 = []"
    using es1(2) Cons.prems(1) by (auto simp: filter_empty_conv)
  have "el < nextHandle (appendChild el (element c) t1)" using Cons.prems(1) l1 by simp
  from Cons.IH[OF this cc] obtain new es where
    n: "cs' = (cs @ [c]) @ new" "map node new = rest"
       "effects s' = effects (appendChild el (element c) t1) @ es"
       "filter (\<lambda>e. subject e = el) es = map (\<lambda>c. AppendChild el (element c)) new"
       "elems_of new \<subseteq> {nextHandle (appendChild el (element c) t1) ..< nextHandle s'}"
    by blast
  have l2: "nextHandle t1 \<le> nextHandle s'"
    using create_children_frame[OF frame_refl _ cc, of UNIV] by simp
  have ecs: "elems c \<subseteq> {nextHandle t ..< nextHandle t1}"
    using ec sc l1 elems_conv[of c] by auto
  have 1: "cs' = cs @ (c # new)" using n(1) by simp
  have 2: "map node (c # new) = child # rest" using n(2) nc by simp
  have 3: "effects s' = effects t @ (es1 @ AppendChild el (element c) # es)"
    using n(3) es1(1) by (simp add: appendChild_def emit_def)
  have 4: "filter (\<lambda>e. subject e = el) (es1 @ AppendChild el (element c) # es)
      = map (\<lambda>c. AppendChild el (element c)) (c # new)"
    using q n(4) by simp
  have "elems_of new \<subseteq> {nextHandle t ..< nextHandle s'}"
    using n(5) l1 by (simp add: subset_iff) (meson le_trans less_imp_le_nat)
  moreover have "elems c \<subseteq> {nextHandle t ..< nextHandle s'}"
    using ecs l2 by (simp add: subset_iff) (meson less_le_trans)
  ultimately have 5: "elems_of (c # new) \<subseteq> {nextHandle t ..< nextHandle s'}" by simp
  show ?case
    apply (rule exI[of _ "c # new"])
    apply (rule exI[of _ "es1 @ AppendChild el (element c) # es"])
    using 1 2 3 4 5 apply (intro conjI)
        apply assumption+
    done
qed

lemma create_children_trace:
  "create_children el ns cs t = Inr (cs', s') \<Longrightarrow>
   \<exists>new us. cs' = cs @ new \<and> length new = length ns
     \<and> length us = Suc (length ns) \<and> us ! 0 = t \<and> us ! length ns = s'
     \<and> (\<forall>j < length ns. \<exists>u. viewCreate (ns ! j) (us ! j) = Inr (new ! j, u)
                            \<and> us ! Suc j = appendChild el (element (new ! j)) u)"
proof (induction ns arbitrary: cs t)
  case Nil
  then show ?case by (auto intro: exI[of _ "[t]"])
next
  case (Cons child rest)
  from Cons.prems obtain c t1 where
    vc: "viewCreate child t = Inr (c, t1)" and
    cc: "create_children el rest (cs @ [c]) (appendChild el (element c) t1) = Inr (cs', s')"
    by (auto split: sum.splits)
  from Cons.IH[OF cc] obtain new us where
    n: "cs' = (cs @ [c]) @ new" "length new = length rest"
       "length us = Suc (length rest)" "us ! 0 = appendChild el (element c) t1"
       "us ! length rest = s'" and
    st: "\<And>m. m < length rest \<Longrightarrow> \<exists>u. viewCreate (rest ! m) (us ! m) = Inr (new ! m, u)
                            \<and> us ! Suc m = appendChild el (element (new ! m)) u"
    by blast
  have "\<forall>j < length (child # rest).
          \<exists>u. viewCreate ((child # rest) ! j) ((t # us) ! j) = Inr ((c # new) ! j, u)
             \<and> (t # us) ! Suc j = appendChild el (element ((c # new) ! j)) u"
  proof (intro allI impI)
    fix j assume j: "j < length (child # rest)"
    show "\<exists>u. viewCreate ((child # rest) ! j) ((t # us) ! j) = Inr ((c # new) ! j, u)
             \<and> (t # us) ! Suc j = appendChild el (element ((c # new) ! j)) u"
    proof (cases j)
      case 0
      then show ?thesis using vc n(4) by simp
    next
      case (Suc m)
      then have "m < length rest" using j by simp
      from st[OF this] show ?thesis using Suc by simp
    qed
  qed
  moreover have "cs' = cs @ (c # new)" using n(1) by simp
  moreover have "length (c # new) = length (child # rest)" using n(2) by simp
  moreover have "length (t # us) = Suc (length (child # rest))" using n(3) by simp
  moreover have "(t # us) ! 0 = t" by simp
  moreover have "(t # us) ! length (child # rest) = s'" using n(5) by simp
  ultimately show ?case by (intro exI[of _ "c # new"] exI[of _ "t # us"] conjI)
qed

lemma patch_each_trace_start:
  "patch_each vo 0 ns cs t = Inr (cs1, s1) \<Longrightarrow>
   length cs1 = length cs
   \<and> (\<exists>ts. length ts = Suc (length ns) \<and> ts ! 0 = t \<and> ts ! length ns = s1
        \<and> (\<forall>j < length ns.
             if (\<exists>a os. vo = Array a os \<and> j < length os \<and> os ! j = ns ! j)
             then ts ! Suc j = ts ! j \<and> cs1 ! j = cs ! j
             else viewPatch (cs ! j) (ns ! j) (ts ! j) = Inr (cs1 ! j, ts ! Suc j)))
   \<and> (\<forall>k. length ns \<le> k \<and> k < length cs \<longrightarrow> cs1 ! k = cs ! k)"
  using patch_each_trace[of vo 0 ns cs t cs1 s1] by (simp cong: if_cong)

text \<open>
  C4. In the case \<^verbatim>\<open>children\<close> of a patch, with \<open>cs\<close> the child records, \<open>vo\<close> the old value
  and \<open>ns\<close> the new children, the positions below both lengths are gone through in order,
  \<open>ts\<close> being the documents in between: at a position where the old value holds the very
  object that the new children hold, nothing is called, the document and the record stay
  as they are; at any other position \<^verbatim>\<open>viewPatch\<close> is called on the record and the new child
  of that position, in the document reached so far, and its record takes the position.
  When there are more records than new children, the \<open>length cs - length ns\<close> last records,
  which the patches have not touched, are then removed from the element, last first,
  nothing else is done and nothing is created; the records that remain are the patched
  ones. When there are fewer records than new children, every remaining new child is then
  given to \<^verbatim>\<open>viewCreate\<close>, in order (\<open>us\<close> are the documents in between), and its record is
  appended to the records and its element to the element; these are the only calls on
  the element, and the nodes of the new records are created by them.
\<close>

theorem patch_children_shrinks_and_grows:
  assumes "patch_children el vo ns cs s = Inr (cs', s')" and "el < nextHandle s"
  shows "(length ns < length cs \<longrightarrow>
           (\<exists>cs1 ts.
              patch_each vo 0 ns cs s = Inr (cs1, ts ! length ns)
              \<and> length cs1 = length cs \<and> length ts = Suc (length ns) \<and> ts ! 0 = s
              \<and> (\<forall>j < length ns.
                    if (\<exists>a os. vo = Array a os \<and> j < length os \<and> os ! j = ns ! j)
                    then ts ! Suc j = ts ! j \<and> cs1 ! j = cs ! j
                    else viewPatch (cs ! j) (ns ! j) (ts ! j) = Inr (cs1 ! j, ts ! Suc j))
              \<and> drop (length ns) cs1 = drop (length ns) cs
              \<and> cs' = take (length ns) cs1
              \<and> effects s' = effects (ts ! length ns) @
                   map (\<lambda>c. RemoveChild el (element c)) (rev (drop (length ns) cs))
              \<and> length (drop (length ns) cs) = length cs - length ns
              \<and> nextHandle s' = nextHandle (ts ! length ns)))
       \<and> (length cs < length ns \<longrightarrow>
           (\<exists>cs1 ts new us es.
              patch_each vo 0 (take (length cs) ns) cs s = Inr (cs1, ts ! length cs)
              \<and> length cs1 = length cs \<and> length ts = Suc (length cs) \<and> ts ! 0 = s
              \<and> (\<forall>j < length cs.
                    if (\<exists>a os. vo = Array a os \<and> j < length os \<and> os ! j = ns ! j)
                    then ts ! Suc j = ts ! j \<and> cs1 ! j = cs ! j
                    else viewPatch (cs ! j) (ns ! j) (ts ! j) = Inr (cs1 ! j, ts ! Suc j))
              \<and> cs' = cs1 @ new \<and> map node new = drop (length cs) ns
              \<and> length new = length ns - length cs
              \<and> length us = Suc (length new) \<and> us ! 0 = ts ! length cs \<and> us ! length new = s'
              \<and> (\<forall>j < length new.
                    \<exists>u. viewCreate (ns ! (length cs + j)) (us ! j) = Inr (new ! j, u)
                      \<and> us ! Suc j = appendChild el (element (new ! j)) u)
              \<and> effects s' = effects (ts ! length cs) @ es
              \<and> filter (\<lambda>e. subject e = el) es = map (\<lambda>c. AppendChild el (element c)) new
              \<and> elems_of new \<subseteq> {nextHandle (ts ! length cs) ..< nextHandle s'}))"
proof (intro conjI impI)
  assume sh: "length ns < length cs"
  from assms(1) sh obtain cs1 s1 where
    pe: "patch_each vo 0 ns cs s = Inr (cs1, s1)" and
    rc: "remove_children el (length cs - length ns) cs1 s1 = Inr (cs', s')"
    by (auto simp: Let_def split: sum.splits)
  from patch_each_trace_start[OF pe] obtain ts where
    l: "length cs1 = length cs" and
    ts: "length ts = Suc (length ns)" "ts ! 0 = s" "ts ! length ns = s1" and
    pos: "\<forall>j < length ns.
            if (\<exists>a os. vo = Array a os \<and> j < length os \<and> os ! j = ns ! j)
            then ts ! Suc j = ts ! j \<and> cs1 ! j = cs ! j
            else viewPatch (cs ! j) (ns ! j) (ts ! j) = Inr (cs1 ! j, ts ! Suc j)" and
    hi: "\<forall>k. length ns \<le> k \<and> k < length cs \<longrightarrow> cs1 ! k = cs ! k"
    by auto
  have dr: "drop (length ns) cs1 = drop (length ns) cs"
    using l hi by (intro nth_equalityI) auto
  from remove_children_effects[OF rc] l sh
  have "cs' = take (length ns) cs1"
    "effects s' = effects s1 @ map (\<lambda>c. RemoveChild el (element c)) (rev (drop (length ns) cs1))"
    "nextHandle s' = nextHandle s1"
    by auto
  with pe l pos ts dr
  show "\<exists>cs1 ts.
          patch_each vo 0 ns cs s = Inr (cs1, ts ! length ns)
          \<and> length cs1 = length cs \<and> length ts = Suc (length ns) \<and> ts ! 0 = s
          \<and> (\<forall>j < length ns.
                if (\<exists>a os. vo = Array a os \<and> j < length os \<and> os ! j = ns ! j)
                then ts ! Suc j = ts ! j \<and> cs1 ! j = cs ! j
                else viewPatch (cs ! j) (ns ! j) (ts ! j) = Inr (cs1 ! j, ts ! Suc j))
          \<and> drop (length ns) cs1 = drop (length ns) cs
          \<and> cs' = take (length ns) cs1
          \<and> effects s' = effects (ts ! length ns) @
               map (\<lambda>c. RemoveChild el (element c)) (rev (drop (length ns) cs))
          \<and> length (drop (length ns) cs) = length cs - length ns
          \<and> nextHandle s' = nextHandle (ts ! length ns)"
    by (intro exI[of _ cs1] exI[of _ ts]) simp
next
  assume gr: "length cs < length ns"
  from assms(1) gr obtain cs1 s1 where
    pe: "patch_each vo 0 (take (length cs) ns) cs s = Inr (cs1, s1)" and
    cc: "create_children el (drop (length cs) ns) cs1 s1 = Inr (cs', s')"
    by (auto simp: Let_def split: sum.splits)
  have lt: "length (take (length cs) ns) = length cs" using gr by simp
  from patch_each_trace_start[OF pe] obtain ts where
    l: "length cs1 = length cs" and
    ts: "length ts = Suc (length cs)" "ts ! 0 = s" "ts ! length cs = s1" and
    pos0: "\<forall>j < length cs.
            if (\<exists>a os. vo = Array a os \<and> j < length os \<and> os ! j = take (length cs) ns ! j)
            then ts ! Suc j = ts ! j \<and> cs1 ! j = cs ! j
            else viewPatch (cs ! j) (take (length cs) ns ! j) (ts ! j) = Inr (cs1 ! j, ts ! Suc j)"
    unfolding lt by auto
  have pos: "\<forall>j < length cs.
            if (\<exists>a os. vo = Array a os \<and> j < length os \<and> os ! j = ns ! j)
            then ts ! Suc j = ts ! j \<and> cs1 ! j = cs ! j
            else viewPatch (cs ! j) (ns ! j) (ts ! j) = Inr (cs1 ! j, ts ! Suc j)"
  proof (intro allI impI)
    fix j assume j: "j < length cs"
    then have "take (length cs) ns ! j = ns ! j" by simp
    with pos0 j show "if (\<exists>a os. vo = Array a os \<and> j < length os \<and> os ! j = ns ! j)
            then ts ! Suc j = ts ! j \<and> cs1 ! j = cs ! j
            else viewPatch (cs ! j) (ns ! j) (ts ! j) = Inr (cs1 ! j, ts ! Suc j)"
      by (auto split: if_splits)
  qed
  have "nextHandle s \<le> nextHandle s1"
    using patch_each_frame[OF frame_refl _ _ pe, of UNIV] by simp
  then have "el < nextHandle s1" using assms(2) by simp
  from create_children_appends[OF this cc] obtain new es where
    n: "cs' = cs1 @ new" "map node new = drop (length cs) ns" "effects s' = effects s1 @ es"
       "filter (\<lambda>e. subject e = el) es = map (\<lambda>c. AppendChild el (element c)) new"
       "elems_of new \<subseteq> {nextHandle s1 ..< nextHandle s'}"
    by blast
  have ln: "length new = length ns - length cs" using n(2) by (metis length_drop length_map)
  from create_children_trace[OF cc] obtain new' us where
    u: "cs' = cs1 @ new'" "length us = Suc (length (drop (length cs) ns))" "us ! 0 = s1"
       "us ! length (drop (length cs) ns) = s'" and
    st0: "\<forall>j < length (drop (length cs) ns).
           \<exists>u. viewCreate (drop (length cs) ns ! j) (us ! j) = Inr (new' ! j, u)
              \<and> us ! Suc j = appendChild el (element (new' ! j)) u"
    by blast
  have nn: "new' = new" using u(1) n(1) by simp
  have st: "\<forall>j < length new.
           \<exists>u. viewCreate (ns ! (length cs + j)) (us ! j) = Inr (new ! j, u)
              \<and> us ! Suc j = appendChild el (element (new ! j)) u"
  proof (intro allI impI)
    fix j assume j: "j < length new"
    then have "j < length (drop (length cs) ns)" using ln by simp
    moreover have "drop (length cs) ns ! j = ns ! (length cs + j)" using j ln gr by simp
    ultimately show "\<exists>u. viewCreate (ns ! (length cs + j)) (us ! j) = Inr (new ! j, u)
              \<and> us ! Suc j = appendChild el (element (new ! j)) u"
      using st0 nn by auto
  qed
  have us: "length us = Suc (length new)" "us ! 0 = ts ! length cs" "us ! length new = s'"
    using u(2,3,4) ln ts(3) by auto
  from pe l pos n ln ts us st
  show "\<exists>cs1 ts new us es.
          patch_each vo 0 (take (length cs) ns) cs s = Inr (cs1, ts ! length cs)
          \<and> length cs1 = length cs \<and> length ts = Suc (length cs) \<and> ts ! 0 = s
          \<and> (\<forall>j < length cs.
                if (\<exists>a os. vo = Array a os \<and> j < length os \<and> os ! j = ns ! j)
                then ts ! Suc j = ts ! j \<and> cs1 ! j = cs ! j
                else viewPatch (cs ! j) (ns ! j) (ts ! j) = Inr (cs1 ! j, ts ! Suc j))
          \<and> cs' = cs1 @ new \<and> map node new = drop (length cs) ns
          \<and> length new = length ns - length cs
          \<and> length us = Suc (length new) \<and> us ! 0 = ts ! length cs \<and> us ! length new = s'
          \<and> (\<forall>j < length new.
                \<exists>u. viewCreate (ns ! (length cs + j)) (us ! j) = Inr (new ! j, u)
                  \<and> us ! Suc j = appendChild el (element (new ! j)) u)
          \<and> effects s' = effects (ts ! length cs) @ es
          \<and> filter (\<lambda>e. subject e = el) es = map (\<lambda>c. AppendChild el (element c)) new
          \<and> elems_of new \<subseteq> {nextHandle (ts ! length cs) ..< nextHandle s'}"
    by (intro exI[of _ cs1] exI[of _ ts] exI[of _ new] exI[of _ us] exI[of _ es]) simp
qed


theorem patch_children_shrinks_and_grows_witness:
  "(let old = [NodeNew 2 ''li'' [(''value'', Prim NaN)], NodeNew 3 ''li'' [], NodeNew 4 ''li'' [],
               NodeNew 5 ''li'' [], NodeNew 6 ''li'' []];
        page = viewCreate (NodeNew 0 ''ul'' [(''children'', Array 1 old)]) initial;
        cs = children (fst (projr page));
        s = snd (projr page);
        ns = [NodeNew 2 ''li'' [(''value'', Prim NaN)],
              NodeNew 12 ''li'' [(''class'', Prim (Str ''b''))]]
    in map element cs = [1, 2, 3, 4, 5]
     \<and> (\<exists>cs' s'. patch_children 0 (Array 1 old) ns cs s = Inr (cs', s')
           \<and> length cs' = 2 \<and> map element cs' = [1, 2] \<and> cs' ! 0 = cs ! 0
           \<and> effects s' = effects s @ [SetProperty 2 ''className'' (Given (Prim (Str ''b''))),
                                         RemoveChild 0 5, RemoveChild 0 4, RemoveChild 0 3])
     \<and> (\<exists>c' t'. viewPatch (cs ! 0) (ns ! 0) s = Inr (c', t')
           \<and> effects t' = effects s @ [SetProperty 1 ''value'' (Given (Prim NaN))]))
   \<and> (let old = [NodeNew 2 ''li'' [(''value'', Prim NaN)], NodeNew 3 ''li'' []];
        page = viewCreate (NodeNew 0 ''ul'' [(''children'', Array 1 old)]) initial;
        cs = children (fst (projr page));
        s = snd (projr page);
        ns = [NodeNew 2 ''li'' [(''value'', Prim NaN)], NodeNew 3 ''li'' [], NodeNew 14 ''li'' [],
              NodeNew 15 ''li'' [], NodeNew 16 ''li'' []]
    in map element cs = [1, 2]
     \<and> (\<exists>cs' s'. patch_children 0 (Array 1 old) ns cs s = Inr (cs', s')
           \<and> length cs' = 5 \<and> map element cs' = [1, 2, 3, 4, 5] \<and> cs' ! 0 = cs ! 0
           \<and> effects s' = effects s @ [CreateElement ''li'' 3, AppendChild 0 3,
                                         CreateElement ''li'' 4, AppendChild 0 4,
                                         CreateElement ''li'' 5, AppendChild 0 5]))"
proof -
  let ?old5 = "[NodeNew 2 ''li'' [(''value'', Prim NaN)], NodeNew 3 ''li'' [], NodeNew 4 ''li'' [],
               NodeNew 5 ''li'' [], NodeNew 6 ''li'' []]"
  let ?new2 = "[NodeNew 2 ''li'' [(''value'', Prim NaN)],
              NodeNew 12 ''li'' [(''class'', Prim (Str ''b''))]]"
  let ?old2 = "[NodeNew 2 ''li'' [(''value'', Prim NaN)], NodeNew 3 ''li'' []]"
  let ?new5 = "[NodeNew 2 ''li'' [(''value'', Prim NaN)], NodeNew 3 ''li'' [], NodeNew 14 ''li'' [],
              NodeNew 15 ''li'' [], NodeNew 16 ''li'' []]"
  define csA where "csA = children (fst (projr (viewCreate (NodeNew 0 ''ul'' [(''children'', Array 1 ?old5)]) initial)))"
  define sA where "sA = snd (projr (viewCreate (NodeNew 0 ''ul'' [(''children'', Array 1 ?old5)]) initial))"
  define csA' where "csA' = fst (projr (patch_children 0 (Array 1 ?old5) ?new2 csA sA))"
  define sA' where "sA' = snd (projr (patch_children 0 (Array 1 ?old5) ?new2 csA sA))"
  define cA where "cA = fst (projr (viewPatch (csA ! 0) (?new2 ! 0) sA))"
  define tA where "tA = snd (projr (viewPatch (csA ! 0) (?new2 ! 0) sA))"
  define csB where "csB = children (fst (projr (viewCreate (NodeNew 0 ''ul'' [(''children'', Array 1 ?old2)]) initial)))"
  define sB where "sB = snd (projr (viewCreate (NodeNew 0 ''ul'' [(''children'', Array 1 ?old2)]) initial))"
  define csB' where "csB' = fst (projr (patch_children 0 (Array 1 ?old2) ?new5 csB sB))"
  define sB' where "sB' = snd (projr (patch_children 0 (Array 1 ?old2) ?new5 csB sB))"
  have a0: "map element csA = [1, 2, 3, 4, 5] \<and> length csA = 5 \<and> 0 < nextHandle sA"
    unfolding csA_def sA_def by (simp add: dom_ops create_attribute_def)
  have a1: "patch_children 0 (Array 1 ?old5) ?new2 csA sA = Inr (csA', sA')"
    unfolding csA'_def sA'_def csA_def sA_def
    by (simp add: dom_ops create_attribute_def patch_attribute_def)
  have a2: "map element csA' = [1, 2]
      \<and> effects sA' = effects sA @ [SetProperty 2 ''className'' (Given (Prim (Str ''b''))),
                                     RemoveChild 0 5, RemoveChild 0 4, RemoveChild 0 3]"
    unfolding csA'_def sA'_def csA_def sA_def
    by (simp add: dom_ops create_attribute_def patch_attribute_def)
  have a4: "viewPatch (csA ! 0) (?new2 ! 0) sA = Inr (cA, tA)
      \<and> effects tA = effects sA @ [SetProperty 1 ''value'' (Given (Prim NaN))]"
    unfolding cA_def tA_def csA_def sA_def
    by (simp add: dom_ops create_attribute_def patch_attribute_def)
  have a3: "length csA' = 2 \<and> csA' ! 0 = csA ! 0"
  proof -
    have h: "0 < nextHandle sA" and sh: "length ?new2 < length csA" using a0 by simp_all
    from patch_children_shrinks_and_grows[OF a1 h, THEN conjunct1, THEN mp, OF sh]
    obtain cs1 ts where
      1: "length cs1 = length csA" and
      2: "\<forall>j < length ?new2.
            if (\<exists>a os. Array 1 ?old5 = Array a os \<and> j < length os \<and> os ! j = ?new2 ! j)
            then ts ! Suc j = ts ! j \<and> cs1 ! j = csA ! j
            else viewPatch (csA ! j) (?new2 ! j) (ts ! j) = Inr (cs1 ! j, ts ! Suc j)" and
      3: "csA' = take (length ?new2) cs1"
      by blast
    have "cs1 ! 0 = csA ! 0" using 2[rule_format, of 0] by simp
    then show ?thesis using 1 3 a0 by simp
  qed
  have b0: "map element csB = [1, 2] \<and> length csB = 2 \<and> 0 < nextHandle sB"
    unfolding csB_def sB_def by (simp add: dom_ops create_attribute_def)
  have b1: "patch_children 0 (Array 1 ?old2) ?new5 csB sB = Inr (csB', sB')"
    unfolding csB'_def sB'_def csB_def sB_def
    by (simp add: dom_ops create_attribute_def patch_attribute_def)
  have b2: "map element csB' = [1, 2, 3, 4, 5]
      \<and> effects sB' = effects sB @ [CreateElement ''li'' 3, AppendChild 0 3,
                                     CreateElement ''li'' 4, AppendChild 0 4,
                                     CreateElement ''li'' 5, AppendChild 0 5]"
    unfolding csB'_def sB'_def csB_def sB_def
    by (simp add: dom_ops create_attribute_def patch_attribute_def)
  have b3: "length csB' = 5 \<and> csB' ! 0 = csB ! 0"
  proof -
    have h: "0 < nextHandle sB" and gr: "length csB < length ?new5" using b0 by simp_all
    from patch_children_shrinks_and_grows[OF b1 h, THEN conjunct2, THEN mp, OF gr]
    obtain cs1 ts new where
      1: "length cs1 = length csB" and
      2: "\<forall>j < length csB.
            if (\<exists>a os. Array 1 ?old2 = Array a os \<and> j < length os \<and> os ! j = ?new5 ! j)
            then ts ! Suc j = ts ! j \<and> cs1 ! j = csB ! j
            else viewPatch (csB ! j) (?new5 ! j) (ts ! j) = Inr (cs1 ! j, ts ! Suc j)" and
      3: "csB' = cs1 @ new" "length new = length ?new5 - length csB"
      by blast
    have "cs1 ! 0 = csB ! 0" using 2[rule_format, of 0] b0 by simp
    then show ?thesis using 1 3 b0 by (simp add: nth_append)
  qed
  have A: "\<exists>cs' s'. patch_children 0 (Array 1 ?old5) ?new2 csA sA = Inr (cs', s')
           \<and> length cs' = 2 \<and> map element cs' = [1, 2] \<and> cs' ! 0 = csA ! 0
           \<and> effects s' = effects sA @ [SetProperty 2 ''className'' (Given (Prim (Str ''b''))),
                                          RemoveChild 0 5, RemoveChild 0 4, RemoveChild 0 3]"
    using a1 a2 a3 by (intro exI[of _ csA'] exI[of _ sA']) simp
  have A': "\<exists>c' t'. viewPatch (csA ! 0) (?new2 ! 0) sA = Inr (c', t')
           \<and> effects t' = effects sA @ [SetProperty 1 ''value'' (Given (Prim NaN))]"
    using a4 by (intro exI[of _ cA] exI[of _ tA])
  have B: "\<exists>cs' s'. patch_children 0 (Array 1 ?old2) ?new5 csB sB = Inr (cs', s')
           \<and> length cs' = 5 \<and> map element cs' = [1, 2, 3, 4, 5] \<and> cs' ! 0 = csB ! 0
           \<and> effects s' = effects sB @ [CreateElement ''li'' 3, AppendChild 0 3,
                                          CreateElement ''li'' 4, AppendChild 0 4,
                                          CreateElement ''li'' 5, AppendChild 0 5]"
    using b1 b2 b3 by (intro exI[of _ csB'] exI[of _ sB']) simp
  show ?thesis
    unfolding Let_def csA_def[symmetric] sA_def[symmetric] csB_def[symmetric] sB_def[symmetric]
    using a0 b0 A A' B by simp
qed


subsection \<open>Taking an attribute back\<close>

lemma frame_cache:
  "frame hs s t \<Longrightarrow> map_of (removeDataPropertyCache s) tag = Some b \<Longrightarrow>
   map_of (removeDataPropertyCache t) tag = Some b"
  by (simp add: frame_def)

lemma frame_plus_fresh: "frame (hs \<union> {h. nextHandle s \<le> h}) s t \<Longrightarrow> frame hs s t"
  unfolding frame_def by auto

lemma viewPatch_frame_elems:
  assumes "viewPatch r d s = Inr (r', s')"
  shows "frame (elems r) s s'"
proof -
  have "frame (elems r \<union> {h. nextHandle s \<le> h}) s s' \<and> nextHandle s \<le> nextHandle s'
      \<and> elems r' \<subseteq> elems r \<union> {nextHandle s ..< nextHandle s'}"
    by (rule viewPatch_frame[where hs = "elems r \<union> {h. nextHandle s \<le> h}",
          OF frame_refl _ _ assms]) auto
  then show ?thesis by (auto intro: frame_plus_fresh)
qed

lemma patch_data_frame_elems:
  assumes "patch_data el od nd cs s = Inr (cs', s')"
  shows "frame (insert el (elems_of cs)) s s'"
proof -
  have "frame (insert el (elems_of cs) \<union> {h. nextHandle s \<le> h}) s s'
      \<and> nextHandle s \<le> nextHandle s'
      \<and> elems_of cs' \<subseteq> elems_of cs \<union> {nextHandle s ..< nextHandle s'}"
    by (rule patch_data_frame[where hs = "insert el (elems_of cs) \<union> {h. nextHandle s \<le> h}",
          OF frame_refl _ _ _ assms]) auto
  then show ?thesis by (auto intro: frame_plus_fresh)
qed

lemma effects_fold_emit:
  "effects (fold (\<lambda>(k, x). emit (g k x)) kvs t) = effects t @ map (\<lambda>(k, x). g k x) kvs"
  by (induction kvs arbitrary: t) (auto simp: emit_def)

lemma removeDataProperty_effect:
  "\<exists>b. effects (removeDataProperty el nm key t) = effects t @
          (if has_key nm (removeDataPropertyCache t) then [] else [CreateElement nm b])
          @ [SetProperty el key (ReadFrom b)]
       \<and> map_of (removeDataPropertyCache (removeDataProperty el nm key t)) nm = Some b"
  by (cases "map_of (removeDataPropertyCache t) nm")
     (auto simp: removeDataProperty_def createElement_def emit_def Let_def has_key_def
        map_of_obj_set)

lemma remove_attribute_generic:
  "generic k \<Longrightarrow> remove_attribute el nm k v t = Inr (removeDataProperty el nm k t)"
  by (simp add: generic_def remove_attribute_def)

lemma remove_attribute_calls:
  assumes "remove_attribute el nm k v t = Inr t1"
  shows "\<exists>es. effects t1 = effects t @ es
           \<and> (\<forall>e \<in> set es. \<not> is_set_style e \<and> (\<forall>h ty. e \<noteq> AddEventListener h ty))"
proof -
  from removeDataProperty_effect[of el nm k t] obtain bl where
    rp: "effects (removeDataProperty el nm k t) = effects t @
          (if has_key nm (removeDataPropertyCache t) then [] else [CreateElement nm bl])
          @ [SetProperty el k (ReadFrom bl)]" by blast
  consider (event) "is_event k"
    | (aria) "\<not> is_event k" "k = ''ariaset''"
    | (dataset) "\<not> is_event k" "k = ''dataset''"
    | (focus) "\<not> is_event k" "k = ''focus''"
    | (cls) "\<not> is_event k" "k = ''class''"
    | (label) "\<not> is_event k" "k = ''for''"
    | (other) "\<not> is_event k" "k \<noteq> ''ariaset''" "k \<noteq> ''dataset''" "k \<noteq> ''focus''"
        "k \<noteq> ''class''" "k \<noteq> ''for''" by blast
  then show ?thesis
  proof cases
    case event
    then show ?thesis using assms
      by (auto simp: remove_attribute_def emit_def split: option.splits)
  next
    case aria
    then show ?thesis using assms
      by (auto simp: remove_attribute_def effects_fold_emit split: sum.splits)
  next
    case dataset
    then show ?thesis using assms
      by (auto simp: remove_attribute_def effects_fold_emit split: sum.splits)
  next
    case focus
    then show ?thesis using assms
      by (auto simp: remove_attribute_def emit_def)
  next
    case cls
    then show ?thesis using assms
      by (auto simp: remove_attribute_def emit_def)
  next
    case label
    then show ?thesis using assms
      by (auto simp: remove_attribute_def emit_def)
  next
    case other
    then have "t1 = removeDataProperty el nm k t"
      using assms by (simp add: remove_attribute_def)
    then show ?thesis using rp by auto
  qed
qed

lemma remove_data_calls:
  "remove_data el nm nd old cs t = Inr (cs', s') \<Longrightarrow>
   \<exists>es. effects s' = effects t @ es
     \<and> (\<forall>e \<in> set es. \<not> is_set_style e \<and> (\<forall>h ty. e \<noteq> AddEventListener h ty))"
proof (induction old arbitrary: cs t)
  case Nil
  then show ?case by simp
next
  case (Cons p old)
  obtain k v where p: "p = (k, v)" by (cases p)
  consider (skip) "has_key k nd"
    | (children) "\<not> has_key k nd" "k = ''children''"
    | (other) "\<not> has_key k nd" "k \<noteq> ''children''" by blast
  then show ?case
  proof cases
    case skip
    then have "remove_data el nm nd old cs t = Inr (cs', s')" using Cons.prems p by simp
    from Cons.IH[OF this] show ?thesis .
  next
    case children
    from Cons.prems children obtain cs1 s1 where
      rc: "remove_children el (length cs) cs t = Inr (cs1, s1)" and
      rd: "remove_data el nm nd old cs1 s1 = Inr (cs', s')"
      by (auto simp: p split: sum.splits)
    from remove_children_effects[OF rc] obtain es1 where
      e1: "effects s1 = effects t @ es1"
      "\<forall>e \<in> set es1. \<not> is_set_style e \<and> (\<forall>h ty. e \<noteq> AddEventListener h ty)"
      by auto
    from Cons.IH[OF rd] obtain es2 where
      e2: "effects s' = effects s1 @ es2"
      "\<forall>e \<in> set es2. \<not> is_set_style e \<and> (\<forall>h ty. e \<noteq> AddEventListener h ty)"
      by blast
    have "effects s' = effects t @ (es1 @ es2)" using e1(1) e2(1) by simp
    moreover have "\<forall>e \<in> set (es1 @ es2). \<not> is_set_style e \<and> (\<forall>h ty. e \<noteq> AddEventListener h ty)"
      using e1(2) e2(2) by auto
    ultimately show ?thesis by blast
  next
    case other
    from Cons.prems other obtain t1 where
      ra: "remove_attribute el nm k v t = Inr t1" and
      rd: "remove_data el nm nd old cs t1 = Inr (cs', s')"
      by (auto simp: p split: sum.splits)
    from remove_attribute_calls[OF ra] obtain es1 where
      e1: "effects t1 = effects t @ es1"
      "\<forall>e \<in> set es1. \<not> is_set_style e \<and> (\<forall>h ty. e \<noteq> AddEventListener h ty)"
      by blast
    from Cons.IH[OF rd] obtain es2 where
      e2: "effects s' = effects t1 @ es2"
      "\<forall>e \<in> set es2. \<not> is_set_style e \<and> (\<forall>h ty. e \<noteq> AddEventListener h ty)"
      by blast
    have "effects s' = effects t @ (es1 @ es2)" using e1(1) e2(1) by simp
    moreover have "\<forall>e \<in> set (es1 @ es2). \<not> is_set_style e \<and> (\<forall>h ty. e \<noteq> AddEventListener h ty)"
      using e1(2) e2(2) by auto
    ultimately show ?thesis by blast
  qed
qed

lemma remove_data_restores:
  "(k, v) \<in> set old \<Longrightarrow> \<not> has_key k nd \<Longrightarrow> generic k \<Longrightarrow>
   remove_data el nm nd old cs t = Inr (cs', s') \<Longrightarrow>
   \<exists>b es. effects s' = effects t @ es \<and> SetProperty el k (ReadFrom b) \<in> set es
      \<and> map_of (removeDataPropertyCache s') nm = Some b"
proof (induction old arbitrary: cs t)
  case Nil
  then show ?case by simp
next
  case (Cons p old)
  obtain k0 v0 where p: "p = (k0, v0)" by (cases p)
  have later: "\<And>cs1 t1. remove_data el nm nd old cs1 t1 = Inr (cs', s') \<Longrightarrow>
      (\<exists>es0. effects t1 = effects t @ es0) \<Longrightarrow> (k, v) \<in> set old \<Longrightarrow> ?case"
  proof -
    fix cs1 t1
    assume rd: "remove_data el nm nd old cs1 t1 = Inr (cs', s')"
      and pre: "\<exists>es0. effects t1 = effects t @ es0" and m: "(k, v) \<in> set old"
    from pre obtain es0 where es0: "effects t1 = effects t @ es0" by blast
    from Cons.IH[OF m Cons.prems(2,3) rd] obtain b es where
      "effects s' = effects t1 @ es" "SetProperty el k (ReadFrom b) \<in> set es"
      "map_of (removeDataPropertyCache s') nm = Some b" by blast
    then have "effects s' = effects t @ (es0 @ es)" "SetProperty el k (ReadFrom b) \<in> set (es0 @ es)"
      "map_of (removeDataPropertyCache s') nm = Some b" using es0 by auto
    then show ?case by blast
  qed
  show ?case
  proof (cases "(k0, v0) = (k, v)")
    case True
    have nc: "k \<noteq> ''children''" using Cons.prems(3) by (simp add: generic_def)
    from Cons.prems(4) True nc Cons.prems(2,3) have
      rd: "remove_data el nm nd old cs (removeDataProperty el nm k t) = Inr (cs', s')"
      by (simp add: p remove_attribute_generic)
    from removeDataProperty_effect[of el nm k t] obtain b es1 where
      e1: "effects (removeDataProperty el nm k t) = effects t @ es1"
        "SetProperty el k (ReadFrom b) \<in> set es1"
        "map_of (removeDataPropertyCache (removeDataProperty el nm k t)) nm = Some b"
      by auto
    from remove_data_frame[OF frame_refl _ _ rd, of UNIV]
    have f: "frame UNIV (removeDataProperty el nm k t) s'" by simp
    from frame_effects[OF f] obtain es2 where
      "effects s' = effects (removeDataProperty el nm k t) @ es2" by blast
    then have "effects s' = effects t @ (es1 @ es2)" "SetProperty el k (ReadFrom b) \<in> set (es1 @ es2)"
      using e1 by auto
    moreover have "map_of (removeDataPropertyCache s') nm = Some b"
      using frame_cache[OF f e1(3)] .
    ultimately show ?thesis by blast
  next
    case False
    then have m: "(k, v) \<in> set old" using Cons.prems(1) p by auto
    consider (skip) "has_key k0 nd"
      | (children) "\<not> has_key k0 nd" "k0 = ''children''"
      | (other) "\<not> has_key k0 nd" "k0 \<noteq> ''children''" by blast
    then show ?thesis
    proof cases
      case skip
      then have "remove_data el nm nd old cs t = Inr (cs', s')" using Cons.prems(4) p by simp
      from later[OF this _ m] show ?thesis by simp
    next
      case children
      from Cons.prems(4) children obtain cs1 s1 where
        rc: "remove_children el (length cs) cs t = Inr (cs1, s1)" and
        rd: "remove_data el nm nd old cs1 s1 = Inr (cs', s')"
        by (auto simp: p split: sum.splits)
      from remove_children_effects[OF rc] have "\<exists>es0. effects s1 = effects t @ es0" by auto
      from later[OF rd this m] show ?thesis .
    next
      case other
      from Cons.prems(4) other obtain t1 where
        ra: "remove_attribute el nm k0 v0 t = Inr t1" and
        rd: "remove_data el nm nd old cs t1 = Inr (cs', s')"
        by (auto simp: p split: sum.splits)
      from remove_attribute_calls[OF ra] have "\<exists>es0. effects t1 = effects t @ es0" by blast
      from later[OF rd this m] show ?thesis .
    qed
  qed
qed


lemma viewPatch_same_kind_loops:
  assumes "viewPatch r d s = Inr (r', s')" and "name (node r) = name d"
  shows "\<exists>cs1 s1. patch_data (element r) (data (node r)) (data d) (children r) s = Inr (cs1, s1)
           \<and> remove_data (element r) (name d) (data d) (data (node r)) cs1 s1 = Inr (children r', s')"
  using assms by (cases d) (auto simp: Let_def split: sum.splits)

lemma frame_distinct:
  "frame hs s t \<Longrightarrow> distinct (keys (removeDataPropertyCache s)) \<Longrightarrow>
   distinct (keys (removeDataPropertyCache t))"
  by (simp add: frame_def)

text \<open>
  C7. In a patch with a description of the same kind, a key of the old description that is
  not a key of the new one and that the switch of the removal loop sends to its default
  has the element's property of that name assigned the value read from the blank element
  that the cache holds for the tag. \<^verbatim>\<open>removeDataProperty\<close> creates a blank element exactly
  when the cache has no entry for the tag, and enters it; a patch keeps every entry of
  the cache as it is and keeps the tags of the cache distinct. So one blank element at
  most is created for a tag.
\<close>

theorem removed_property_restored_from_cache:
  assumes "viewPatch r d s = Inr (r', s')"
    and "name (node r) = name d"
    and "(k, v) \<in> set (data (node r))"
    and "\<not> has_key k (data d)"
    and "generic k"
  shows "(\<exists>b es. effects s' = effects s @ es
            \<and> SetProperty (element r) k (ReadFrom b) \<in> set es
            \<and> map_of (removeDataPropertyCache s') (name d) = Some b)
       \<and> (\<forall>tag b. map_of (removeDataPropertyCache s) tag = Some b
              \<longrightarrow> map_of (removeDataPropertyCache s') tag = Some b)
       \<and> (distinct (keys (removeDataPropertyCache s))
              \<longrightarrow> distinct (keys (removeDataPropertyCache s')))
       \<and> (\<forall>el nm key t.
             (has_key nm (removeDataPropertyCache t) \<longrightarrow>
                nextHandle (removeDataProperty el nm key t) = nextHandle t
                \<and> removeDataPropertyCache (removeDataProperty el nm key t) = removeDataPropertyCache t
                \<and> effects (removeDataProperty el nm key t)
                    = effects t @ [SetProperty el key
                                     (ReadFrom (the (map_of (removeDataPropertyCache t) nm)))])
           \<and> (\<not> has_key nm (removeDataPropertyCache t) \<longrightarrow>
                nextHandle (removeDataProperty el nm key t) = Suc (nextHandle t)
                \<and> removeDataPropertyCache (removeDataProperty el nm key t)
                    = removeDataPropertyCache t @ [(nm, nextHandle t)]
                \<and> effects (removeDataProperty el nm key t)
                    = effects t @ [CreateElement nm (nextHandle t),
                                   SetProperty el key (ReadFrom (nextHandle t))]))"
proof (intro conjI)
  from viewPatch_same_kind_loops[OF assms(1,2)] obtain cs1 s1 where
    pd: "patch_data (element r) (data (node r)) (data d) (children r) s = Inr (cs1, s1)" and
    rd: "remove_data (element r) (name d) (data d) (data (node r)) cs1 s1 = Inr (children r', s')"
    by blast
  from frame_effects[OF patch_data_frame_elems[OF pd]] obtain es0 where
    e0: "effects s1 = effects s @ es0" by blast
  from remove_data_restores[OF assms(3,4,5) rd] obtain b es where
    e: "effects s' = effects s1 @ es" "SetProperty (element r) k (ReadFrom b) \<in> set es"
       "map_of (removeDataPropertyCache s') (name d) = Some b" by blast
  have "effects s' = effects s @ (es0 @ es)" "SetProperty (element r) k (ReadFrom b) \<in> set (es0 @ es)"
    using e0 e by auto
  with e(3) show "\<exists>b es. effects s' = effects s @ es
            \<and> SetProperty (element r) k (ReadFrom b) \<in> set es
            \<and> map_of (removeDataPropertyCache s') (name d) = Some b" by blast
next
  show "\<forall>tag b. map_of (removeDataPropertyCache s) tag = Some b
              \<longrightarrow> map_of (removeDataPropertyCache s') tag = Some b"
    using frame_cache[OF viewPatch_frame_elems[OF assms(1)]] by blast
next
  show "distinct (keys (removeDataPropertyCache s))
              \<longrightarrow> distinct (keys (removeDataPropertyCache s'))"
    using frame_distinct[OF viewPatch_frame_elems[OF assms(1)]] by blast
next
  show "\<forall>el nm key t.
             (has_key nm (removeDataPropertyCache t) \<longrightarrow>
                nextHandle (removeDataProperty el nm key t) = nextHandle t
                \<and> removeDataPropertyCache (removeDataProperty el nm key t) = removeDataPropertyCache t
                \<and> effects (removeDataProperty el nm key t)
                    = effects t @ [SetProperty el key
                                     (ReadFrom (the (map_of (removeDataPropertyCache t) nm)))])
           \<and> (\<not> has_key nm (removeDataPropertyCache t) \<longrightarrow>
                nextHandle (removeDataProperty el nm key t) = Suc (nextHandle t)
                \<and> removeDataPropertyCache (removeDataProperty el nm key t)
                    = removeDataPropertyCache t @ [(nm, nextHandle t)]
                \<and> effects (removeDataProperty el nm key t)
                    = effects t @ [CreateElement nm (nextHandle t),
                                   SetProperty el key (ReadFrom (nextHandle t))])"
  proof (intro allI conjI impI)
    fix el nm key and t :: dom
    assume "\<not> has_key nm (removeDataPropertyCache t)"
    then have n: "map_of (removeDataPropertyCache t) nm = None" by (simp add: has_key_def)
    then have f: "nm \<notin> set (keys (removeDataPropertyCache t))"
      by (simp add: keys_def map_of_eq_None_iff)
    show "nextHandle (removeDataProperty el nm key t) = Suc (nextHandle t)"
      using n by (simp add: removeDataProperty_def createElement_def emit_def Let_def)
    show "removeDataPropertyCache (removeDataProperty el nm key t)
            = removeDataPropertyCache t @ [(nm, nextHandle t)]"
      using n obj_set_fresh[OF f]
      by (simp add: removeDataProperty_def createElement_def emit_def Let_def)
    show "effects (removeDataProperty el nm key t)
            = effects t @ [CreateElement nm (nextHandle t),
                           SetProperty el key (ReadFrom (nextHandle t))]"
      using n by (simp add: removeDataProperty_def createElement_def emit_def Let_def)
  qed (auto simp: removeDataProperty_def has_key_def emit_def)
qed


theorem removed_property_restored_from_cache_witness:
  "let page = viewCreate (NodeNew 0 ''input'' [(''value'', Prim (Str ''x''))]) initial;
       r = fst (projr page);
       s = snd (projr page)
   in element r = 0
    \<and> (\<exists>r' s' b. viewPatch r (NodeNew 1 ''input'' []) s = Inr (r', s')
          \<and> effects s' = effects s @ [CreateElement ''input'' 1,
                                        SetProperty 0 ''value'' (ReadFrom 1)]
          \<and> removeDataPropertyCache s' = [(''input'', 1)]
          \<and> map_of (removeDataPropertyCache s') ''input'' = Some b
          \<and> SetProperty 0 ''value'' (ReadFrom b) \<in> set (effects s'))"
proof -
  let ?page = "viewCreate (NodeNew 0 ''input'' [(''value'', Prim (Str ''x''))]) initial"
  let ?d = "NodeNew 1 ''input'' []"
  define r where "r = fst (projr ?page)"
  define s where "s = snd (projr ?page)"
  define r' where "r' = fst (projr (viewPatch r ?d s))"
  define s' where "s' = snd (projr (viewPatch r ?d s))"
  have r0: "element r = 0 \<and> name (node r) = ''input''
      \<and> data (node r) = [(''value'', Prim (Str ''x''))]"
    unfolding r_def by (simp add: dom_ops create_attribute_def)
  have e: "viewPatch r ?d s = Inr (r', s')"
    unfolding r'_def s'_def r_def s_def
    by (simp add: dom_ops create_attribute_def remove_attribute_def removeDataProperty_def)
  have c: "effects s' = effects s @ [CreateElement ''input'' 1, SetProperty 0 ''value'' (ReadFrom 1)]
      \<and> removeDataPropertyCache s' = [(''input'', 1)]"
    unfolding r'_def s'_def r_def s_def
    by (simp add: dom_ops create_attribute_def remove_attribute_def removeDataProperty_def)
  from removed_property_restored_from_cache[OF e, of "''value''" "Prim (Str ''x'')"] r0
  obtain b es where
    "effects s' = effects s @ es" "SetProperty 0 ''value'' (ReadFrom b) \<in> set es"
    "map_of (removeDataPropertyCache s') ''input'' = Some b"
    by (auto simp: has_key_def generic_def)
  then have "map_of (removeDataPropertyCache s') ''input'' = Some b
      \<and> SetProperty 0 ''value'' (ReadFrom b) \<in> set (effects s')" by simp
  with e c r0 show ?thesis
    unfolding Let_def r_def[symmetric] s_def[symmetric] by blast
qed

text \<open>
  C10. The switch of the removal loop has no case \<^verbatim>\<open>style\<close>: for \<^verbatim>\<open>style\<close> the body of the loop
  is \<^verbatim>\<open>removeDataProperty\<close>. So in a patch with a description of the same kind, when the
  old description has the key \<^verbatim>\<open>style\<close> and the new one has not, the removal loop assigns
  the element's \<^verbatim>\<open>style\<close> property the value read from the blank element cached for the
  tag, and none of the calls of the removal loop sets a style sub-key.
\<close>

theorem removed_style_takes_default_path:
  assumes "viewPatch r d s = Inr (r', s')"
    and "name (node r) = name d"
    and "(''style'', v) \<in> set (data (node r))"
    and "\<not> has_key ''style'' (data d)"
  shows "(\<forall>el nm w t. remove_attribute el nm ''style'' w t
                        = Inr (removeDataProperty el nm ''style'' t))
       \<and> (\<exists>cs1 s1 b es.
             patch_data (element r) (data (node r)) (data d) (children r) s = Inr (cs1, s1)
           \<and> remove_data (element r) (name d) (data d) (data (node r)) cs1 s1
               = Inr (children r', s')
           \<and> effects s' = effects s1 @ es
           \<and> SetProperty (element r) ''style'' (ReadFrom b) \<in> set es
           \<and> map_of (removeDataPropertyCache s') (name d) = Some b
           \<and> (\<forall>e \<in> set es. \<not> is_set_style e))"
proof (intro conjI)
  have g: "generic ''style''" by (simp add: generic_def)
  show "\<forall>el nm w t. remove_attribute el nm ''style'' w t
                        = Inr (removeDataProperty el nm ''style'' t)"
    using remove_attribute_generic[OF g] by blast
  from viewPatch_same_kind_loops[OF assms(1,2)] obtain cs1 s1 where
    pd: "patch_data (element r) (data (node r)) (data d) (children r) s = Inr (cs1, s1)" and
    rd: "remove_data (element r) (name d) (data d) (data (node r)) cs1 s1 = Inr (children r', s')"
    by blast
  from remove_data_restores[OF assms(3,4) g rd] obtain b es where
    e: "effects s' = effects s1 @ es" "SetProperty (element r) ''style'' (ReadFrom b) \<in> set es"
       "map_of (removeDataPropertyCache s') (name d) = Some b" by blast
  from remove_data_calls[OF rd] obtain es' where
    e': "effects s' = effects s1 @ es'" "\<forall>e \<in> set es'. \<not> is_set_style e" by blast
  have "es' = es" using e(1) e'(1) by simp
  with pd rd e e'(2)
  show "\<exists>cs1 s1 b es.
             patch_data (element r) (data (node r)) (data d) (children r) s = Inr (cs1, s1)
           \<and> remove_data (element r) (name d) (data d) (data (node r)) cs1 s1
               = Inr (children r', s')
           \<and> effects s' = effects s1 @ es
           \<and> SetProperty (element r) ''style'' (ReadFrom b) \<in> set es
           \<and> map_of (removeDataPropertyCache s') (name d) = Some b
           \<and> (\<forall>e \<in> set es. \<not> is_set_style e)"
    by blast
qed

theorem removed_style_takes_default_path_witness:
  "let page = viewCreate (NodeNew 0 ''div''
                 [(''style'', Object 1 [(''color'', Str ''red'')])]) initial;
       r = fst (projr page);
       s = snd (projr page)
   in effects s = [CreateElement ''div'' 0, SetStyle 0 ''color'' (Str ''red'')]
    \<and> (\<exists>r' s' b. viewPatch r (NodeNew 2 ''div'' []) s = Inr (r', s')
          \<and> effects s' = effects s @ [CreateElement ''div'' 1,
                                        SetProperty 0 ''style'' (ReadFrom 1)]
          \<and> map_of (removeDataPropertyCache s') ''div'' = Some b)"
proof -
  let ?page = "viewCreate (NodeNew 0 ''div''
                 [(''style'', Object 1 [(''color'', Str ''red'')])]) initial"
  let ?d = "NodeNew 2 ''div'' []"
  define r where "r = fst (projr ?page)"
  define s where "s = snd (projr ?page)"
  define r' where "r' = fst (projr (viewPatch r ?d s))"
  define s' where "s' = snd (projr (viewPatch r ?d s))"
  have r0: "name (node r) = ''div''
      \<and> data (node r) = [(''style'', Object 1 [(''color'', Str ''red'')])]
      \<and> effects s = [CreateElement ''div'' 0, SetStyle 0 ''color'' (Str ''red'')]"
    unfolding r_def s_def by (simp add: dom_ops create_attribute_def)
  have e: "viewPatch r ?d s = Inr (r', s')"
    unfolding r'_def s'_def r_def s_def
    by (simp add: dom_ops create_attribute_def remove_attribute_def removeDataProperty_def)
  have c: "effects s' = effects s @ [CreateElement ''div'' 1, SetProperty 0 ''style'' (ReadFrom 1)]"
    unfolding r'_def s'_def r_def s_def
    by (simp add: dom_ops create_attribute_def remove_attribute_def removeDataProperty_def)
  from removed_style_takes_default_path[OF e, of "Object 1 [(''color'', Str ''red'')]"] r0
  obtain b where "map_of (removeDataPropertyCache s') ''div'' = Some b"
    by (auto simp: has_key_def)
  with e c r0 show ?thesis
    unfolding Let_def r_def[symmetric] s_def[symmetric] by blast
qed


subsection \<open>Event listeners\<close>



lemma count_list_map_0: "(\<And>y. y \<in> set ys \<Longrightarrow> f y \<noteq> x) \<Longrightarrow> count_list (map f ys) x = 0"
  by (induction ys) auto

lemma bound_handler_emit [simp]: "bound_handler (emit e s) el k = bound_handler s el k"
  by (simp add: bound_handler_def emit_def)


lemma effects_bind_event [simp]: "effects (bind_event el key v s) = effects s"
  by (simp add: bind_event_def Let_def)

lemma bound_handler_fold_emit [simp]:
  "bound_handler (fold (\<lambda>(a, x). emit (g a x)) kvs t) el k = bound_handler t el k"
  by (induction kvs arbitrary: t) auto

lemma nextHandle_fold_emit_pair [simp]:
  "nextHandle (fold (\<lambda>(a, x). emit (g a x)) kvs t) = nextHandle t"
  by (induction kvs arbitrary: t) auto


lemma MoonEvent_appendChild [simp]: "MoonEvent (appendChild p c s) = MoonEvent s"
  by (simp add: appendChild_def emit_def)

lemma MoonEvent_removeChild [simp]: "MoonEvent (removeChild p c s) = MoonEvent s"
  by (simp add: removeChild_def emit_def)




















end
